theory Spec2Isabelle
  imports Complex_Main
begin

section \<open>Scores\<close>

text \<open>
  The search mixes Python integers (the centipawn values returned by \<open>_evaluate\<close>)
  with the floats \<open>float('-inf')\<close> and \<open>float('inf')\<close>. Python compares an integer
  with an infinity by value, so a score is an element of the integers extended by the
  two infinities. The same extension over the rationals carries the value
  \<open>best_score / 100.0\<close> of the result (the source computes it as an IEEE double).
\<close>

datatype 'a ext = NegInf | Fin 'a | PosInf

instantiation ext :: (linorder) linorder
begin

fun less_eq_ext :: "'a ext \<Rightarrow> 'a ext \<Rightarrow> bool" where
  "less_eq_ext NegInf _ = True"
| "less_eq_ext (Fin x) NegInf = False"
| "less_eq_ext (Fin x) (Fin y) = (x \<le> y)"
| "less_eq_ext (Fin x) PosInf = True"
| "less_eq_ext PosInf PosInf = True"
| "less_eq_ext PosInf _ = False"

definition less_ext :: "'a ext \<Rightarrow> 'a ext \<Rightarrow> bool" where
  "less_ext a b = (a \<le> b \<and> \<not> b \<le> a)"

instance
proof
  fix x y z :: "'a ext"
  show "(x < y) = (x \<le> y \<and> \<not> y \<le> x)"
    by (simp add: less_ext_def)
  show "x \<le> x"
    by (cases x) simp_all
  show "x \<le> y \<Longrightarrow> y \<le> z \<Longrightarrow> x \<le> z"
    by (cases x; cases y; cases z) simp_all
  show "x \<le> y \<Longrightarrow> y \<le> x \<Longrightarrow> x = y"
    by (cases x; cases y) simp_all
  show "x \<le> y \<or> y \<le> x"
    by (cases x; cases y) auto
qed

end

text \<open>Unary minus of Python on an integer or an infinity.\<close>

fun neg :: "int ext \<Rightarrow> int ext" where
  "neg NegInf = PosInf"
| "neg (Fin x) = Fin (- x)"
| "neg PosInf = NegInf"

text \<open>\<open>best_score / 100.0\<close>: centipawns to pawns.\<close>

fun to_pawns :: "int ext \<Rightarrow> rat ext" where
  "to_pawns NegInf = NegInf"
| "to_pawns (Fin x) = Fin (of_int x / 100)"
| "to_pawns PosInf = PosInf"

section \<open>Pieces and evaluation tables\<close>

datatype piece_type = PAWN | KNIGHT | BISHOP | ROOK | QUEEN | KING

text \<open>\<open>color\<close> is \<open>True\<close> for white, as \<open>chess.WHITE\<close> is.\<close>

datatype piece = Piece (piece_type: piece_type) (color: bool)

definition PIECE_VALUES :: "piece_type \<rightharpoonup> int" where
  "PIECE_VALUES =
     [PAWN \<mapsto> 100, KNIGHT \<mapsto> 320, BISHOP \<mapsto> 330, ROOK \<mapsto> 500, QUEEN \<mapsto> 900,
      KING \<mapsto> 20000]"

definition PAWN_TABLE :: "int list" where
  "PAWN_TABLE =
     [0,  0,  0,  0,  0,  0,  0,  0,
      50, 50, 50, 50, 50, 50, 50, 50,
      10, 10, 20, 30, 30, 20, 10, 10,
      5,  5, 10, 25, 25, 10,  5,  5,
      0,  0,  0, 20, 20,  0,  0,  0,
      5, -5,-10,  0,  0,-10, -5,  5,
      5, 10, 10,-20,-20, 10, 10,  5,
      0,  0,  0,  0,  0,  0,  0,  0]"

definition KNIGHT_TABLE :: "int list" where
  "KNIGHT_TABLE =
     [-50,-40,-30,-30,-30,-30,-40,-50,
      -40,-20,  0,  0,  0,  0,-20,-40,
      -30,  0, 10, 15, 15, 10,  0,-30,
      -30,  5, 15, 20, 20, 15,  5,-30,
      -30,  0, 15, 20, 20, 15,  0,-30,
      -30,  5, 10, 15, 15, 10,  5,-30,
      -40,-20,  0,  5,  5,  0,-20,-40,
      -50,-40,-30,-30,-30,-30,-40,-50]"

section \<open>The rules engine\<close>

text \<open>
  The program calls the \<open>chess\<close> library for everything about the rules of the game.
  The library is not part of the program; its answers are a parameter of the model.
  A value of type \<open>'p\<close> is a complete game state (placement, side to move, rights,
  counters and history), a value of type \<open>'m\<close> a move.
  \<^item> \<open>from_fen\<close>: \<open>chess.Board(fen)\<close>, \<open>None\<close> when the library rejects the string;
  \<^item> \<open>legal_moves\<close>: \<open>list(board.legal_moves)\<close>, in the library's order;
  \<^item> \<open>apply_move\<close>: the state that \<open>board.push(move)\<close> leads to;
  \<^item> \<open>turn\<close>: \<open>board.turn\<close>, \<open>True\<close> when white is to move;
  \<^item> \<open>piece_at\<close>: \<open>board.piece_at(square)\<close> for the squares \<open>0 .. 63\<close>;
  \<^item> \<open>uci\<close>: \<open>move.uci()\<close>.
\<close>

record ('p, 'm) pos_oracle =
  from_fen :: "string \<Rightarrow> 'p option"
  is_game_over :: "'p \<Rightarrow> bool"
  is_checkmate :: "'p \<Rightarrow> bool"
  is_stalemate :: "'p \<Rightarrow> bool"
  is_insufficient_material :: "'p \<Rightarrow> bool"
  turn :: "'p \<Rightarrow> bool"
  piece_at :: "'p \<Rightarrow> nat \<Rightarrow> piece option"
  legal_moves :: "'p \<Rightarrow> 'm list"
  apply_move :: "'p \<Rightarrow> 'm \<Rightarrow> 'p"
  uci :: "'m \<Rightarrow> string"

section \<open>Static evaluation\<close>

text \<open>The positional bonus of one piece on one square (the \<open>if / elif / else\<close> chain).\<close>

definition pos_bonus :: "piece \<Rightarrow> nat \<Rightarrow> int" where
  "pos_bonus pc square =
     (if piece_type pc = PAWN then PAWN_TABLE ! (if color pc then square else 63 - square)
      else if piece_type pc = KNIGHT then KNIGHT_TABLE ! (if color pc then square else 63 - square)
      else 0)"

text \<open>One iteration of the loop over \<open>chess.SQUARES\<close>.\<close>

definition add_square :: "('p, 'm) pos_oracle \<Rightarrow> 'p \<Rightarrow> nat \<Rightarrow> int \<Rightarrow> int" where
  "add_square R p square score =
     (case piece_at R p square of
        None \<Rightarrow> score
      | Some pc \<Rightarrow>
          (let value = (case PIECE_VALUES (piece_type pc) of None \<Rightarrow> 0 | Some v \<Rightarrow> v);
               total_value = value + pos_bonus pc square
           in if color pc then score + total_value else score - total_value))"

definition SQUARES :: "nat list" where
  "SQUARES = [0 ..< 64]"

definition evaluate :: "('p, 'm) pos_oracle \<Rightarrow> 'p \<Rightarrow> int" where
  "evaluate R p =
     (if is_checkmate R p then (if turn R p then - 20000 else 20000)
      else if is_stalemate R p \<or> is_insufficient_material R p then 0
      else
        (let score = fold (add_square R p) SQUARES 0
         in score + (if turn R p then int (length (legal_moves R p)) * 10
                     else - int (length (legal_moves R p)) * 10)))"

section \<open>The board object and the engine object\<close>

text \<open>
  A \<open>chess.Board\<close> is mutated in place: \<open>push\<close> plays a move and remembers the
  state it came from, \<open>pop\<close> goes back to the remembered state and fails on a board
  with nothing to take back.
\<close>

record 'p board =
  current :: 'p
  stack :: "'p list"

definition new_board :: "'p \<Rightarrow> 'p board" where
  "new_board p = \<lparr>current = p, stack = []\<rparr>"

definition push :: "('p, 'm) pos_oracle \<Rightarrow> 'm \<Rightarrow> 'p board \<Rightarrow> 'p board" where
  "push R m b = \<lparr>current = apply_move R (current b) m, stack = current b # stack b\<rparr>"

text \<open>
  The exceptions of the program as values:
  \<^item> \<open>InvalidFen\<close>: the \<open>ValueError\<close> of \<open>chess.Board(fen)\<close>;
  \<^item> \<open>GameOver\<close>: \<open>ValueError("Game is over")\<close>;
  \<^item> \<open>NoLegalMoves\<close>: \<open>ValueError("No legal moves available")\<close>;
  \<^item> \<open>PopFromEmpty\<close>: the \<open>IndexError\<close> of \<open>board.pop()\<close> with no move to take back;
  \<^item> \<open>RecursionLimit\<close>: the \<open>RecursionError\<close> of a call that finds no stack frame left.
\<close>

datatype error = InvalidFen | GameOver | NoLegalMoves | PopFromEmpty | RecursionLimit

definition pop :: "'p board \<Rightarrow> error + 'p board" where
  "pop b = (case stack b of [] \<Rightarrow> Inl PopFromEmpty | p # ps \<Rightarrow> Inr \<lparr>current = p, stack = ps\<rparr>)"

text \<open>The fields of a \<open>MinimaxEngine\<close> instance.\<close>

record engine =
  depth :: int
  nodes_searched :: nat
  pv :: "string list"

definition init_engine :: "int \<Rightarrow> engine" where
  "init_engine d = \<lparr>depth = d, nodes_searched = 0, pv = []\<rparr>"

section \<open>The search\<close>

text \<open>
  A search call takes the window, the board and the engine, and returns the score with
  the board and the engine as the call left them.
\<close>

type_synonym 'p search =
  "int ext \<Rightarrow> int ext \<Rightarrow> 'p board \<Rightarrow> engine \<Rightarrow> error + (int ext \<times> 'p board \<times> engine)"

text \<open>The loop of the maximizing branch; \<open>search\<close> is the recursive call of its body.\<close>

primrec max_loop ::
  "('p, 'm) pos_oracle \<Rightarrow> 'p search \<Rightarrow> 'm list \<Rightarrow> int ext \<Rightarrow> int ext \<Rightarrow> int ext \<Rightarrow>
   'p board \<Rightarrow> engine \<Rightarrow> error + (int ext \<times> 'p board \<times> engine)" where
  "max_loop R search [] max_eval alpha beta b self = Inr (max_eval, b, self)"
| "max_loop R search (move # rest) max_eval alpha beta b self =
     (case search alpha beta (push R move b) self of
        Inl e \<Rightarrow> Inl e
      | Inr (eval_score, b1, self1) \<Rightarrow>
          (case pop b1 of
             Inl e \<Rightarrow> Inl e
           | Inr b2 \<Rightarrow>
               (let max_eval' = max max_eval eval_score;
                    alpha' = max alpha eval_score
                in if beta \<le> alpha' then Inr (max_eval', b2, self1)
                   else max_loop R search rest max_eval' alpha' beta b2 self1)))"

text \<open>The loop of the minimizing branch.\<close>

primrec min_loop ::
  "('p, 'm) pos_oracle \<Rightarrow> 'p search \<Rightarrow> 'm list \<Rightarrow> int ext \<Rightarrow> int ext \<Rightarrow> int ext \<Rightarrow>
   'p board \<Rightarrow> engine \<Rightarrow> error + (int ext \<times> 'p board \<times> engine)" where
  "min_loop R search [] min_eval alpha beta b self = Inr (min_eval, b, self)"
| "min_loop R search (move # rest) min_eval alpha beta b self =
     (case search alpha beta (push R move b) self of
        Inl e \<Rightarrow> Inl e
      | Inr (eval_score, b1, self1) \<Rightarrow>
          (case pop b1 of
             Inl e \<Rightarrow> Inl e
           | Inr b2 \<Rightarrow>
               (let min_eval' = min min_eval eval_score;
                    beta' = min beta eval_score
                in if beta' \<le> alpha then Inr (min_eval', b2, self1)
                   else min_loop R search rest min_eval' alpha beta' b2 self1)))"

text \<open>
  \<open>_minimax\<close>. The first argument is the number of stack frames the interpreter still
  grants: the recursion of the source is bounded by \<open>depth\<close> only when \<open>depth\<close> is not
  negative.
\<close>

primrec minimax ::
  "nat \<Rightarrow> ('p, 'm) pos_oracle \<Rightarrow> int \<Rightarrow> int ext \<Rightarrow> int ext \<Rightarrow> bool \<Rightarrow>
   'p board \<Rightarrow> engine \<Rightarrow> error + (int ext \<times> 'p board \<times> engine)" where
  "minimax 0 R d alpha beta maximizing b self = Inl RecursionLimit"
| "minimax (Suc frames) R d alpha beta maximizing b self =
     (let self1 = self\<lparr>nodes_searched := nodes_searched self + 1\<rparr>
      in if d = 0 \<or> is_game_over R (current b)
         then Inr (Fin (evaluate R (current b)), b, self1)
         else
           (let moves = legal_moves R (current b)
            in if maximizing
               then max_loop R (\<lambda>al be. minimax frames R (d - 1) al be False)
                      moves NegInf alpha beta b self1
               else min_loop R (\<lambda>al be. minimax frames R (d - 1) al be True)
                      moves PosInf alpha beta b self1))"

section \<open>The best move\<close>

text \<open>
  The loop over the root moves of \<open>get_best_move\<close>, with the variables it updates:
  \<open>best_move\<close> (\<open>None\<close> until a move is selected), \<open>best_score\<close> and \<open>alpha\<close>.
\<close>

primrec root_loop ::
  "nat \<Rightarrow> ('p, 'm) pos_oracle \<Rightarrow> 'm list \<Rightarrow> 'm option \<Rightarrow> int ext \<Rightarrow> int ext \<Rightarrow> int ext \<Rightarrow>
   'p board \<Rightarrow> engine \<Rightarrow> error + ('m option \<times> int ext \<times> int ext \<times> 'p board \<times> engine)" where
  "root_loop frames R [] best_move best_score alpha beta b self =
     Inr (best_move, best_score, alpha, b, self)"
| "root_loop frames R (move # rest) best_move best_score alpha beta b self =
     (case minimax frames R (depth self - 1) (neg beta) (neg alpha) False (push R move b) self of
        Inl e \<Rightarrow> Inl e
      | Inr (v, b1, self1) \<Rightarrow>
          (case pop b1 of
             Inl e \<Rightarrow> Inl e
           | Inr b2 \<Rightarrow>
               (let score = neg v;
                    best_score' = (if best_score < score then score else best_score);
                    best_move' = (if best_score < score then Some move else best_move);
                    alpha' = max alpha score
                in root_loop frames R rest best_move' best_score' alpha' beta b2 self1)))"

text \<open>
  \<open>get_best_move\<close>. \<open>rnd\<close> is the draw of the random number generator, used by
  \<open>random.choice\<close> only. The result is the returned tuple
  \<open>(move_uci, score, depth, nodes, principal_variation)\<close> and the engine as the call
  left it.
\<close>

type_synonym search_result = "string \<times> rat ext \<times> int \<times> nat \<times> string list"

definition get_best_move ::
  "nat \<Rightarrow> ('p, 'm) pos_oracle \<Rightarrow> nat \<Rightarrow> engine \<Rightarrow> string \<Rightarrow> error + (search_result \<times> engine)" where
  "get_best_move frames R rnd self fen =
     (case from_fen R fen of
        None \<Rightarrow> Inl InvalidFen
      | Some p \<Rightarrow>
          (let b = new_board p;
               self1 = self\<lparr>nodes_searched := 0, pv := []\<rparr>
           in if is_game_over R (current b) then Inl GameOver
              else
                (let moves = legal_moves R (current b)
                 in if moves = [] then Inl NoLegalMoves
                    else
                      (case root_loop frames R moves None NegInf NegInf PosInf b self1 of
                         Inl e \<Rightarrow> Inl e
                       | Inr (best_move, best_score, alpha, b1, self2) \<Rightarrow>
                           (let best_move' =
                                  (case best_move of
                                     None \<Rightarrow> moves ! (rnd mod length moves)
                                   | Some m \<Rightarrow> m);
                                best_score' =
                                  (case best_move of None \<Rightarrow> Fin 0 | Some m \<Rightarrow> best_score)
                            in Inr ((uci R best_move', to_pawns best_score', depth self2,
                                     nodes_searched self2, [uci R best_move']), self2))))))"

section \<open>The search as a function of the position\<close>

text \<open>
  What a search call computes, without the board and the engine: the score, and the
  number of activations of \<open>_minimax\<close> the call performs (itself included). The depth
  is a natural number here. Each loop runs over the successor states of the
  legal moves and carries the running count of activations.
\<close>

primrec ab_max_loop ::
  "(int ext \<Rightarrow> int ext \<Rightarrow> 'p \<Rightarrow> int ext \<times> nat) \<Rightarrow> 'p list \<Rightarrow> int ext \<Rightarrow> int ext \<Rightarrow> int ext \<Rightarrow>
   nat \<Rightarrow> int ext \<times> nat" where
  "ab_max_loop rec [] max_eval alpha beta n = (max_eval, n)"
| "ab_max_loop rec (c # cs) max_eval alpha beta n =
     (let r = rec alpha beta c;
          max_eval' = max max_eval (fst r);
          alpha' = max alpha (fst r);
          n' = n + snd r
      in if beta \<le> alpha' then (max_eval', n')
         else ab_max_loop rec cs max_eval' alpha' beta n')"

primrec ab_min_loop ::
  "(int ext \<Rightarrow> int ext \<Rightarrow> 'p \<Rightarrow> int ext \<times> nat) \<Rightarrow> 'p list \<Rightarrow> int ext \<Rightarrow> int ext \<Rightarrow> int ext \<Rightarrow>
   nat \<Rightarrow> int ext \<times> nat" where
  "ab_min_loop rec [] min_eval alpha beta n = (min_eval, n)"
| "ab_min_loop rec (c # cs) min_eval alpha beta n =
     (let r = rec alpha beta c;
          min_eval' = min min_eval (fst r);
          beta' = min beta (fst r);
          n' = n + snd r
      in if beta' \<le> alpha then (min_eval', n')
         else ab_min_loop rec cs min_eval' alpha beta' n')"

primrec ab ::
  "('p, 'm) pos_oracle \<Rightarrow> nat \<Rightarrow> int ext \<Rightarrow> int ext \<Rightarrow> bool \<Rightarrow> 'p \<Rightarrow> int ext \<times> nat" where
  "ab R 0 alpha beta maximizing p = (Fin (evaluate R p), 1)"
| "ab R (Suc d) alpha beta maximizing p =
     (if is_game_over R p then (Fin (evaluate R p), 1)
      else
        (let cs = map (apply_move R p) (legal_moves R p)
         in if maximizing
            then ab_max_loop (\<lambda>al be. ab R d al be False) cs NegInf alpha beta 1
            else ab_min_loop (\<lambda>al be. ab R d al be True) cs PosInf alpha beta 1))"

text \<open>The number of activations of one search call.\<close>

definition activations ::
  "('p, 'm) pos_oracle \<Rightarrow> nat \<Rightarrow> int ext \<Rightarrow> int ext \<Rightarrow> bool \<Rightarrow> 'p \<Rightarrow> nat" where
  "activations R d alpha beta maximizing p = snd (ab R d alpha beta maximizing p)"

text \<open>
  The root loop in the same style: the selected move, the best score, the final
  \<open>alpha\<close> and the running count of activations. \<open>d\<close> is the depth of the calls the
  loop makes (the configured depth minus one).
\<close>

primrec ab_root_loop ::
  "('p, 'm) pos_oracle \<Rightarrow> nat \<Rightarrow> 'p \<Rightarrow> 'm list \<Rightarrow> 'm option \<Rightarrow> int ext \<Rightarrow> int ext \<Rightarrow> int ext \<Rightarrow>
   nat \<Rightarrow> 'm option \<times> int ext \<times> int ext \<times> nat" where
  "ab_root_loop R d p [] best_move best_score alpha beta n = (best_move, best_score, alpha, n)"
| "ab_root_loop R d p (move # rest) best_move best_score alpha beta n =
     (let r = ab R d (neg beta) (neg alpha) False (apply_move R p move);
          score = neg (fst r);
          best_score' = (if best_score < score then score else best_score);
          best_move' = (if best_score < score then Some move else best_move);
          alpha' = max alpha score
      in ab_root_loop R d p rest best_move' best_score' alpha' beta (n + snd r))"

text \<open>The number of activations of one \<open>get_best_move\<close> call on state \<open>p\<close>.\<close>

definition root_activations :: "('p, 'm) pos_oracle \<Rightarrow> nat \<Rightarrow> 'p \<Rightarrow> nat" where
  "root_activations R d p =
     snd (snd (snd (ab_root_loop R d p (legal_moves R p) None NegInf NegInf PosInf 0)))"

section \<open>Minimax without pruning\<close>

text \<open>
  The reference of the pruning-equivalence property: the same tree, the same order of
  moves and the same evaluation at the leaves, every move of every node searched.
\<close>

primrec full_minimax :: "('p, 'm) pos_oracle \<Rightarrow> nat \<Rightarrow> bool \<Rightarrow> 'p \<Rightarrow> int ext" where
  "full_minimax R 0 maximizing p = Fin (evaluate R p)"
| "full_minimax R (Suc d) maximizing p =
     (if is_game_over R p then Fin (evaluate R p)
      else
        (let cs = map (apply_move R p) (legal_moves R p)
         in if maximizing
            then fold (\<lambda>c best. max best (full_minimax R d False c)) cs NegInf
            else fold (\<lambda>c best. min best (full_minimax R d True c)) cs PosInf))"

text \<open>The window property of a search result \<open>r\<close> against the true value \<open>v\<close>.\<close>

definition bounded :: "int ext \<Rightarrow> int ext \<Rightarrow> int ext \<Rightarrow> int ext \<Rightarrow> bool" where
  "bounded alpha beta r v =
     ((r \<le> alpha \<longrightarrow> v \<le> r) \<and> (beta \<le> r \<longrightarrow> r \<le> v) \<and> (alpha < r \<and> r < beta \<longrightarrow> r = v))"

text \<open>
  The contract of the rules engine that the search relies on: a state without a legal
  move is a finished game (checkmate or stalemate).
\<close>

definition consistent :: "('p, 'm) pos_oracle \<Rightarrow> bool" where
  "consistent R = (\<forall>p. legal_moves R p = [] \<longrightarrow> is_game_over R p)"

section \<open>Recorded positions\<close>

text \<open>
  A recorded position holds the answers of the rules engine for one state: the
  placement, the side to move, whether that side is in check, whether the material is
  insufficient, and the legal moves in the engine's order, each with the recorded state
  it leads to. As in the library, a state is checkmate when the side to move is in check
  and has no legal move, stalemate when it is not in check and has no legal move, and
  the game is over in these cases and when the material is insufficient.
\<close>

datatype snapshot =
  Snapshot (sn_pieces: "(nat \<times> piece) list") (sn_turn: bool) (sn_check: bool)
    (sn_insufficient: bool) (sn_replies: "(string \<times> snapshot) list")

definition snapshot_oracle :: "(string \<times> snapshot) list \<Rightarrow> (snapshot, string) pos_oracle" where
  "snapshot_oracle known =
     \<lparr>from_fen = map_of known,
      is_game_over = (\<lambda>s. sn_replies s = [] \<or> sn_insufficient s),
      is_checkmate = (\<lambda>s. sn_check s \<and> sn_replies s = []),
      is_stalemate = (\<lambda>s. \<not> sn_check s \<and> sn_replies s = []),
      is_insufficient_material = sn_insufficient,
      turn = sn_turn,
      piece_at = (\<lambda>s. map_of (sn_pieces s)),
      legal_moves = (\<lambda>s. map fst (sn_replies s)),
      apply_move = (\<lambda>s m. case map_of (sn_replies s) m of None \<Rightarrow> s | Some t \<Rightarrow> t),
      uci = (\<lambda>m. m)\<rparr>"

subsection \<open>King and pawn against king, mate in one\<close>

text \<open>
  \<open>k7/2P5/1K6/8/8/8/8/8 w - - 0 1\<close>: white king b6 (square 41), white pawn c7 (50),
  black king a8 (56), white to move. White has nine legal moves; \<open>c7c8q\<close> and \<open>c7c8r\<close>
  mate, \<open>b6a6\<close> stalemates, \<open>c7c8b\<close> and \<open>c7c8n\<close> leave insufficient material.
  \<open>t\<close> stands for the states two plies away, which a search of depth one never looks at.
\<close>

definition kp_fen :: string where
  "kp_fen = ''k7/2P5/1K6/8/8/8/8/8 w - - 0 1''"

definition kp_after :: "nat \<Rightarrow> (nat \<times> piece) list" where
  "kp_after k = [(k, Piece KING True), (50, Piece PAWN True), (56, Piece KING False)]"

definition kp_promoted :: "piece_type \<Rightarrow> (nat \<times> piece) list" where
  "kp_promoted pt = [(41, Piece KING True), (58, Piece pt True), (56, Piece KING False)]"

definition kp_position :: "snapshot \<Rightarrow> snapshot" where
  "kp_position t =
     Snapshot (kp_after 41) True False False
       [(''b6c6'', Snapshot (kp_after 42) False False False [(''a8a7'', t)]),
        (''b6a6'', Snapshot (kp_after 40) False False False []),
        (''b6c5'', Snapshot (kp_after 34) False False False [(''a8b7'', t), (''a8a7'', t)]),
        (''b6b5'', Snapshot (kp_after 33) False False False [(''a8b7'', t), (''a8a7'', t)]),
        (''b6a5'', Snapshot (kp_after 32) False False False [(''a8b7'', t), (''a8a7'', t)]),
        (''c7c8q'', Snapshot (kp_promoted QUEEN) False True False []),
        (''c7c8r'', Snapshot (kp_promoted ROOK) False True False []),
        (''c7c8b'', Snapshot (kp_promoted BISHOP) False False True [(''a8b8'', t)]),
        (''c7c8n'', Snapshot (kp_promoted KNIGHT) False False True [(''a8b8'', t)])]"

definition kp_rules :: "snapshot \<Rightarrow> (snapshot, string) pos_oracle" where
  "kp_rules t = snapshot_oracle [(kp_fen, kp_position t)]"

subsection \<open>The initial position\<close>

definition initial_placement :: "(nat \<times> piece) list" where
  "initial_placement =
     [(0, Piece ROOK True), (1, Piece KNIGHT True), (2, Piece BISHOP True),
      (3, Piece QUEEN True), (4, Piece KING True), (5, Piece BISHOP True),
      (6, Piece KNIGHT True), (7, Piece ROOK True),
      (8, Piece PAWN True), (9, Piece PAWN True), (10, Piece PAWN True),
      (11, Piece PAWN True), (12, Piece PAWN True), (13, Piece PAWN True),
      (14, Piece PAWN True), (15, Piece PAWN True),
      (48, Piece PAWN False), (49, Piece PAWN False), (50, Piece PAWN False),
      (51, Piece PAWN False), (52, Piece PAWN False), (53, Piece PAWN False),
      (54, Piece PAWN False), (55, Piece PAWN False),
      (56, Piece ROOK False), (57, Piece KNIGHT False), (58, Piece BISHOP False),
      (59, Piece QUEEN False), (60, Piece KING False), (61, Piece BISHOP False),
      (62, Piece KNIGHT False), (63, Piece ROOK False)]"

definition initial_moves :: "string list" where
  "initial_moves =
     [''g1h3'', ''g1f3'', ''b1c3'', ''b1a3'',
      ''h2h3'', ''g2g3'', ''f2f3'', ''e2e3'', ''d2d3'', ''c2c3'', ''b2b3'', ''a2a3'',
      ''h2h4'', ''g2g4'', ''f2f4'', ''e2e4'', ''d2d4'', ''c2c4'', ''b2b4'', ''a2a4'']"

definition initial_position :: "snapshot \<Rightarrow> snapshot" where
  "initial_position t =
     Snapshot initial_placement True False False (map (\<lambda>m. (m, t)) initial_moves)"

subsection \<open>Locked pawns, a deeper search that visits fewer nodes\<close>

text \<open>
  \<open>8/p7/P7/8/8/5p1p/5P1P/5k1K b - - 0 1\<close>: white king h1 (square 7), white pawns
  f2, h2, a6 (13, 15, 40), black king f1 (5), black pawns f3, h3, a7 (21, 23, 48),
  black to move. No pawn can move, so every move is a king move; \<open>f1f2\<close> captures
  the pawn f2 and stalemates white. The record holds every state that a search of depth
  one to five visits; \<open>t\<close> stands for the states that none of them visits.
\<close>

definition kings :: "nat \<Rightarrow> nat \<Rightarrow> (nat \<times> piece) list" where
  "kings w b =
     [(w, Piece KING True), (b, Piece KING False),
      (13, Piece PAWN True), (15, Piece PAWN True), (40, Piece PAWN True),
      (21, Piece PAWN False), (23, Piece PAWN False), (48, Piece PAWN False)]"

definition kings_f2 :: "nat \<Rightarrow> nat \<Rightarrow> (nat \<times> piece) list" where
  "kings_f2 w b =
     [(w, Piece KING True), (b, Piece KING False),
      (15, Piece PAWN True), (40, Piece PAWN True),
      (21, Piece PAWN False), (23, Piece PAWN False), (48, Piece PAWN False)]"

definition locked_fen :: string where
  "locked_fen = ''8/p7/P7/8/8/5p1p/5P1P/5k1K b - - 0 1''"

definition locked_position :: "snapshot \<Rightarrow> snapshot" where
  "locked_position t =
     Snapshot (kings 7 5) False False False
       [(''f1f2'',
        Snapshot (kings_f2 7 13) True False False []),
        (''f1e2'',
        Snapshot (kings 7 12) True False False
          [(''h1g1'',
           Snapshot (kings 6 12) False False False
             [(''e2d3'',
              Snapshot (kings 6 19) True False False
                [(''g1h1'',
                 Snapshot (kings 7 19) False False False
                   [(''d3e4'',
                    Snapshot (kings 7 28) True False False
                      [(''h1g1'', t)]),
                    (''d3d4'', t), (''d3c4'', t), (''d3c3'', t), (''d3e2'', t),
                    (''d3d2'', t), (''d3c2'', t)]),
                 (''g1f1'',
                 Snapshot (kings 5 19) False False False
                   [(''d3e4'',
                    Snapshot (kings 5 28) True False False
                      [(''f1g1'', t), (''f1e1'', t)]),
                    (''d3d4'', t), (''d3c4'', t), (''d3c3'', t), (''d3d2'', t),
                    (''d3c2'', t)])]),
              (''e2d2'',
              Snapshot (kings 6 11) True False False
                [(''g1h1'',
                 Snapshot (kings 7 11) False False False
                   [(''d2d3'', t), (''d2c3'', t), (''d2e2'', t), (''d2c2'', t),
                    (''d2e1'', t), (''d2d1'', t), (''d2c1'', t)]),
                 (''g1f1'', t)]),
              (''e2e1'',
              Snapshot (kings 6 4) True False False
                [(''g1h1'',
                 Snapshot (kings 7 4) False False False
                   [(''e1f2'', t), (''e1e2'', t), (''e1d2'', t), (''e1f1'', t),
                    (''e1d1'', t)])]),
              (''e2d1'', t)])]),
        (''f1e1'',
        Snapshot (kings 7 4) True False False
          [(''h1g1'',
           Snapshot (kings 6 4) False False False
             [(''e1e2'',
              Snapshot (kings 6 12) True False False
                [(''g1h1'',
                 Snapshot (kings 7 12) False False False
                   [(''e2d3'',
                    Snapshot (kings 7 19) True False False
                      [(''h1g1'', t)]),
                    (''e2f2'', t), (''e2d2'', t), (''e2f1'', t), (''e2e1'', t),
                    (''e2d1'', t)])]),
              (''e1d2'', t), (''e1d1'', t)])])]"

definition locked_rules :: "snapshot \<Rightarrow> (snapshot, string) pos_oracle" where
  "locked_rules t = snapshot_oracle [(locked_fen, locked_position t)]"

subsection \<open>A stalemate, and the states that are not recorded\<close>

text \<open>
  \<open>8/p7/P7/8/8/5p1p/5k1P/7K w - - 0 1\<close>, the position after \<open>f1f2\<close>: white is not
  in check and has no legal move.
\<close>

definition stalemate_fen :: string where
  "stalemate_fen = ''8/p7/P7/8/8/5p1p/5k1P/7K w - - 0 1''"

definition stalemate_position :: snapshot where
  "stalemate_position = Snapshot (kings_f2 7 13) True False False []"

subsection \<open>A forced capture that ends the game\<close>

text \<open>
  \<open>1k6/8/8/8/8/8/q7/K7 w - - 0 1\<close>: white king a1 (square 0), black queen a2 (8),
  black king b8 (57), white to move and in check. The queen covers b1 and b2 and is
  not defended, so the only legal move is \<open>a1a2\<close>; it leaves king against king, which
  is insufficient material, with black to move.
\<close>

definition capture_fen :: string where
  "capture_fen = ''1k6/8/8/8/8/8/q7/K7 w - - 0 1''"

definition capture_position :: "snapshot \<Rightarrow> snapshot" where
  "capture_position t =
     Snapshot [(0, Piece KING True), (8, Piece QUEEN False), (57, Piece KING False)]
       True True False
       [(''a1a2'',
         Snapshot [(8, Piece KING True), (57, Piece KING False)] False False True
           [(''b8c8'', t), (''b8a8'', t), (''b8c7'', t), (''b8b7'', t), (''b8a7'', t)])]"

definition capture_rules :: "snapshot \<Rightarrow> (snapshot, string) pos_oracle" where
  "capture_rules t = snapshot_oracle [(capture_fen, capture_position t)]"

text \<open>
  In a statement about one search, \<open>unrecorded\<close> stands for the states that the search
  does not visit.
\<close>

definition unrecorded :: snapshot where
  "unrecorded = Snapshot [] True False False []"

section \<open>Order on scores, board operations\<close>

lemma less_ext_simps [simp]:
  "NegInf < Fin x" "NegInf < (PosInf :: 'a::linorder ext)" "Fin x < PosInf"
  "(Fin x < Fin y) = (x < y)"
  "\<not> a < NegInf" "\<not> PosInf < a"
  by (cases a; auto simp: less_ext_def)+

lemma le_ext_simps [simp]:
  "a \<le> PosInf" "(a \<le> NegInf) = (a = NegInf)" "(PosInf \<le> a) = (a = PosInf)"
  by (cases a; simp)+

lemma pop_push [simp]: "pop (push R m b) = Inr b"
  by (simp add: pop_def push_def)

lemma current_push [simp]: "current (push R m b) = apply_move R (current b) m"
  by (simp add: push_def)

lemma ab_max_loop_count:
  "ab_max_loop rec cs m al be (n + k) =
     (fst (ab_max_loop rec cs m al be k), n + snd (ab_max_loop rec cs m al be k))"
  by (induction cs arbitrary: m al k) (simp_all add: Let_def add.assoc)

lemma ab_min_loop_count:
  "ab_min_loop rec cs m al be (n + k) =
     (fst (ab_min_loop rec cs m al be k), n + snd (ab_min_loop rec cs m al be k))"
  by (induction cs arbitrary: m be k) (simp_all add: Let_def add.assoc)

lemma max_loop_ab:
  assumes "\<And>al be m s. m \<in> set ms \<Longrightarrow>
             search al be (push R m b) s =
               Inr (fst (rec al be (apply_move R (current b) m)), push R m b,
                    s\<lparr>nodes_searched := nodes_searched s + snd (rec al be (apply_move R (current b) m))\<rparr>)"
  shows "max_loop R search ms me al be b self =
           Inr (fst (ab_max_loop rec (map (apply_move R (current b)) ms) me al be (nodes_searched self)),
                b,
                self\<lparr>nodes_searched :=
                  snd (ab_max_loop rec (map (apply_move R (current b)) ms) me al be (nodes_searched self))\<rparr>)"
  using assms
proof (induction ms arbitrary: me al self)
  case Nil
  then show ?case by simp
next
  case (Cons m ms)
  have step: "search al be (push R m b) self =
      Inr (fst (rec al be (apply_move R (current b) m)), push R m b,
           self\<lparr>nodes_searched := nodes_searched self + snd (rec al be (apply_move R (current b) m))\<rparr>)"
    using Cons.prems by simp
  have rest: "\<And>al be m' s. m' \<in> set ms \<Longrightarrow>
             search al be (push R m' b) s =
               Inr (fst (rec al be (apply_move R (current b) m')), push R m' b,
                    s\<lparr>nodes_searched := nodes_searched s + snd (rec al be (apply_move R (current b) m'))\<rparr>)"
    using Cons.prems by simp
  show ?case
    by (simp add: step Let_def Cons.IH [OF rest])
qed

lemma min_loop_ab:
  assumes "\<And>al be m s. m \<in> set ms \<Longrightarrow>
             search al be (push R m b) s =
               Inr (fst (rec al be (apply_move R (current b) m)), push R m b,
                    s\<lparr>nodes_searched := nodes_searched s + snd (rec al be (apply_move R (current b) m))\<rparr>)"
  shows "min_loop R search ms me al be b self =
           Inr (fst (ab_min_loop rec (map (apply_move R (current b)) ms) me al be (nodes_searched self)),
                b,
                self\<lparr>nodes_searched :=
                  snd (ab_min_loop rec (map (apply_move R (current b)) ms) me al be (nodes_searched self))\<rparr>)"
  using assms
proof (induction ms arbitrary: me be self)
  case Nil
  then show ?case by simp
next
  case (Cons m ms)
  have step: "search al be (push R m b) self =
      Inr (fst (rec al be (apply_move R (current b) m)), push R m b,
           self\<lparr>nodes_searched := nodes_searched self + snd (rec al be (apply_move R (current b) m))\<rparr>)"
    using Cons.prems by simp
  have rest: "\<And>al be m' s. m' \<in> set ms \<Longrightarrow>
             search al be (push R m' b) s =
               Inr (fst (rec al be (apply_move R (current b) m')), push R m' b,
                    s\<lparr>nodes_searched := nodes_searched s + snd (rec al be (apply_move R (current b) m'))\<rparr>)"
    using Cons.prems by simp
  show ?case
    by (simp add: step Let_def Cons.IH [OF rest])
qed

lemma minimax_ab:
  "0 \<le> d \<Longrightarrow> nat d < frames \<Longrightarrow>
   minimax frames R d al be mx b self =
     Inr (fst (ab R (nat d) al be mx (current b)), b,
          self\<lparr>nodes_searched := nodes_searched self + snd (ab R (nat d) al be mx (current b))\<rparr>)"
proof (induction frames arbitrary: d al be mx b self)
  case 0
  then show ?case by simp
next
  case (Suc frames)
  show ?case
  proof (cases "d = 0 \<or> is_game_over R (current b)")
    case True
    then show ?thesis
      by (cases "nat d") (auto simp: Let_def)
  next
    case False
    then have dpos: "0 \<le> d - 1" and dn: "nat d = Suc (nat (d - 1))" and fr: "nat (d - 1) < frames"
      using Suc.prems by auto
    have over: "\<not> is_game_over R (current b)" and d0: "d \<noteq> 0"
      using False by auto
    note ih = Suc.IH [OF dpos fr]
    show ?thesis
    proof (cases mx)
      case True
      have "minimax (Suc frames) R d al be mx b self =
             max_loop R (\<lambda>al be. minimax frames R (d - 1) al be False)
               (legal_moves R (current b)) NegInf al be b (self\<lparr>nodes_searched := nodes_searched self + 1\<rparr>)"
        using over d0 True by (simp add: Let_def)
      also have "\<dots> = Inr (fst (ab R (nat d) al be mx (current b)), b,
          self\<lparr>nodes_searched := nodes_searched self + snd (ab R (nat d) al be mx (current b))\<rparr>)"
        apply (subst max_loop_ab [where rec = "\<lambda>al be. ab R (nat (d - 1)) al be False"])
         apply (simp add: ih)
        apply (simp add: dn over True Let_def)
        using ab_max_loop_count [of "\<lambda>al be. ab R (nat (d - 1)) al be False"
                 "map (apply_move R (current b)) (legal_moves R (current b))" NegInf al be
                 "nodes_searched self" "Suc 0"]
        apply simp
        done
      finally show ?thesis .
    next
      case mxF: False
      have "minimax (Suc frames) R d al be mx b self =
             min_loop R (\<lambda>al be. minimax frames R (d - 1) al be True)
               (legal_moves R (current b)) PosInf al be b (self\<lparr>nodes_searched := nodes_searched self + 1\<rparr>)"
        using over d0 mxF by (simp add: Let_def)
      also have "\<dots> = Inr (fst (ab R (nat d) al be mx (current b)), b,
          self\<lparr>nodes_searched := nodes_searched self + snd (ab R (nat d) al be mx (current b))\<rparr>)"
        apply (subst min_loop_ab [where rec = "\<lambda>al be. ab R (nat (d - 1)) al be True"])
         apply (simp add: ih)
        apply (simp add: dn over mxF Let_def)
        using ab_min_loop_count [of "\<lambda>al be. ab R (nat (d - 1)) al be True"
                 "map (apply_move R (current b)) (legal_moves R (current b))" PosInf al be
                 "nodes_searched self" "Suc 0"]
        apply simp
        done
      finally show ?thesis .
    qed
  qed
qed

lemma root_loop_ab:
  assumes "1 \<le> depth self" and "nat (depth self - 1) < frames"
  shows "root_loop frames R ms bm bs al be b self =
           (let r = ab_root_loop R (nat (depth self - 1)) (current b) ms bm bs al be (nodes_searched self)
            in Inr (fst r, fst (snd r), fst (snd (snd r)), b,
                    self\<lparr>nodes_searched := snd (snd (snd r))\<rparr>))"
  using assms
proof (induction ms arbitrary: bm bs al self)
  case Nil
  then show ?case by simp
next
  case (Cons m ms)
  have d0: "0 \<le> depth self - 1" using Cons.prems by simp
  note mm = minimax_ab [OF d0 Cons.prems(2)]
  let ?r = "ab R (nat (depth self - 1)) (neg be) (neg al) False (apply_move R (current b) m)"
  let ?self1 = "self\<lparr>nodes_searched := nodes_searched self + snd ?r\<rparr>"
  have p1: "1 \<le> depth ?self1" and p2: "nat (depth ?self1 - 1) < frames"
    using Cons.prems by simp_all
  show ?case
    by (simp add: mm Let_def Cons.IH [OF p1 p2])
qed

lemma get_best_move_ab:
  assumes "from_fen R fen = Some p" and "\<not> is_game_over R p" and "legal_moves R p \<noteq> []"
    and "1 \<le> depth self" and "nat (depth self - 1) < frames"
  shows "get_best_move frames R rnd self fen =
           (let moves = legal_moves R p;
                r = ab_root_loop R (nat (depth self - 1)) p moves None NegInf NegInf PosInf 0;
                best_move' = (case fst r of None \<Rightarrow> moves ! (rnd mod length moves) | Some m \<Rightarrow> m);
                best_score' = (case fst r of None \<Rightarrow> Fin 0 | Some m \<Rightarrow> fst (snd r))
            in Inr ((uci R best_move', to_pawns best_score', depth self,
                     root_activations R (nat (depth self - 1)) p, [uci R best_move']),
                    self\<lparr>nodes_searched := root_activations R (nat (depth self - 1)) p, pv := []\<rparr>))"
proof -
  let ?self1 = "self\<lparr>nodes_searched := 0, pv := []\<rparr>"
  have p1: "1 \<le> depth ?self1" and p2: "nat (depth ?self1 - 1) < frames"
    using assms by simp_all
  show ?thesis
    using assms(1-3)
    by (simp add: get_best_move_def new_board_def root_loop_ab [OF p1 p2] Let_def
        root_activations_def)
qed

section \<open>Facts about the recorded positions\<close>

lemma kp_from_fen: "from_fen (kp_rules t) kp_fen = Some (kp_position t)"
  by (simp add: kp_rules_def snapshot_oracle_def)

lemma kp_not_over: "\<not> is_game_over (kp_rules t) (kp_position t)"
  by (simp add: kp_rules_def snapshot_oracle_def kp_position_def)

lemma kp_has_moves: "legal_moves (kp_rules t) (kp_position t) \<noteq> []"
  by (simp add: kp_rules_def snapshot_oracle_def kp_position_def)

lemma locked_from_fen: "from_fen (locked_rules t) locked_fen = Some (locked_position t)"
  by (simp add: locked_rules_def snapshot_oracle_def)

lemma locked_not_over: "\<not> is_game_over (locked_rules t) (locked_position t)"
  by (simp add: locked_rules_def snapshot_oracle_def locked_position_def)

lemma locked_has_moves: "legal_moves (locked_rules t) (locked_position t) \<noteq> []"
  by (simp add: locked_rules_def snapshot_oracle_def locked_position_def)

lemma snapshot_oracle_consistent: "consistent (snapshot_oracle known)"
  by (simp add: consistent_def snapshot_oracle_def)

section \<open>The window property of the search\<close>

lemma max_step_rel:
  fixes al m mv e v be :: "'a::linorder"
  assumes "e \<le> max al m \<longrightarrow> v \<le> e" and "max al m < e \<and> e < be \<longrightarrow> e = v" and "e < be"
    and "m \<le> al \<longrightarrow> mv \<le> m" and "al < m \<longrightarrow> m = mv"
  shows "max m e \<le> al \<longrightarrow> max mv v \<le> max m e" and "al < max m e \<longrightarrow> max m e = max mv v"
  using assms by (auto simp: max_def not_le split: if_splits)

lemma min_step_rel:
  fixes be m mv e v al :: "'a::linorder"
  assumes "min be m \<le> e \<longrightarrow> e \<le> v" and "al < e \<and> e < min be m \<longrightarrow> e = v" and "al < e"
    and "be \<le> m \<longrightarrow> m \<le> mv" and "m < be \<longrightarrow> m = mv"
  shows "be \<le> min m e \<longrightarrow> min m e \<le> min mv v" and "min m e < be \<longrightarrow> min m e = min mv v"
  using assms by (auto simp: min_def not_le split: if_splits)

lemma fold_max_ge: "x \<le> acc \<Longrightarrow> x \<le> fold (\<lambda>c best. max best (V c)) cs (acc::int ext)"
  by (induction cs arbitrary: acc) (auto simp: le_max_iff_disj)

lemma fold_min_le: "acc \<le> x \<Longrightarrow> fold (\<lambda>c best. min best (V c)) cs (acc::int ext) \<le> x"
  by (induction cs arbitrary: acc) (auto simp: min_le_iff_disj)

lemma ab_max_loop_bounded:
  assumes rec: "\<And>c a. c \<in> set cs \<Longrightarrow> a < be \<Longrightarrow> bounded a be (fst (rec a be c)) (V c)"
    and "a = max al m" and "al < be" and "m < be"
    and "m \<le> al \<longrightarrow> mv \<le> m" and "al < m \<longrightarrow> m = mv"
  shows "bounded al be (fst (ab_max_loop rec cs m a be n)) (fold (\<lambda>c best. max best (V c)) cs mv)"
  using assms
proof (induction cs arbitrary: m a mv n)
  case Nil
  then show ?case by (auto simp: bounded_def)
next
  case (Cons c cs)
  let ?e = "fst (rec a be c)"
  have alt: "a < be" using Cons.prems by simp
  have bc: "bounded a be ?e (V c)" using Cons.prems(1) [of c a] alt by simp
  have lower: "V c \<le> fold (\<lambda>c best. max best (V c)) cs (max mv (V c))"
    by (rule fold_max_ge) simp
  show ?case
  proof (cases "be \<le> max a ?e")
    case True
    then have ebe: "be \<le> ?e" using alt by (auto simp: max_def split: if_splits)
    then have "?e \<le> V c" using bc by (simp add: bounded_def)
    then have low: "?e \<le> fold (\<lambda>c best. max best (V c)) cs (max mv (V c))"
      using lower by (rule order_trans)
    have "m < ?e" using ebe Cons.prems(4) by (rule less_le_trans [rotated])
    then have me: "max m ?e = ?e" by (intro max_absorb2 less_imp_le)
    have "al < ?e" using Cons.prems(3) ebe by (rule less_le_trans)
    then show ?thesis using True ebe low me
      by (simp add: bounded_def Let_def not_le [symmetric])
  next
    case False
    then have e_lt: "?e < be" by (simp add: not_le)
    have rec': "\<And>c' a'. c' \<in> set cs \<Longrightarrow> a' < be \<Longrightarrow> bounded a' be (fst (rec a' be c')) (V c')"
      using Cons.prems(1) by simp
    have a': "max a ?e = max al (max m ?e)" using Cons.prems(2) by (simp add: max.assoc)
    have m': "max m ?e < be" using e_lt Cons.prems(4) by simp
    have b1: "?e \<le> max al m \<longrightarrow> V c \<le> ?e" and b2: "max al m < ?e \<and> ?e < be \<longrightarrow> ?e = V c"
      using bc Cons.prems(2) by (simp_all add: bounded_def)
    note r = max_step_rel [OF b1 b2 e_lt Cons.prems(5,6)]
    from Cons.IH [OF rec' a' Cons.prems(3) m' r] False
    show ?thesis by (simp add: Let_def)
  qed
qed

lemma ab_min_loop_bounded:
  assumes rec: "\<And>c b. c \<in> set cs \<Longrightarrow> al < b \<Longrightarrow> bounded al b (fst (rec al b c)) (V c)"
    and "b = min be m" and "al < be" and "al < m"
    and "be \<le> m \<longrightarrow> m \<le> mv" and "m < be \<longrightarrow> m = mv"
  shows "bounded al be (fst (ab_min_loop rec cs m al b n)) (fold (\<lambda>c best. min best (V c)) cs mv)"
  using assms
proof (induction cs arbitrary: m b mv n)
  case Nil
  then show ?case by (auto simp: bounded_def)
next
  case (Cons c cs)
  let ?e = "fst (rec al b c)"
  have alt: "al < b" using Cons.prems by simp
  have bc: "bounded al b ?e (V c)" using Cons.prems(1) [of c b] alt by simp
  have upper: "fold (\<lambda>c best. min best (V c)) cs (min mv (V c)) \<le> V c"
    by (rule fold_min_le) simp
  show ?case
  proof (cases "min b ?e \<le> al")
    case True
    then have eal: "?e \<le> al" using alt by (auto simp: min_def split: if_splits)
    then have "V c \<le> ?e" using bc by (simp add: bounded_def)
    with upper have up: "fold (\<lambda>c best. min best (V c)) cs (min mv (V c)) \<le> ?e"
      by (rule order_trans)
    have "?e < m" using eal Cons.prems(4) by (rule le_less_trans)
    then have me: "min m ?e = ?e" by (intro min_absorb2 less_imp_le)
    have "?e < be" using eal Cons.prems(3) by (rule le_less_trans)
    then show ?thesis using True eal up me
      by (simp add: bounded_def Let_def not_le [symmetric])
  next
    case False
    then have e_gt: "al < ?e" by (simp add: not_le)
    have rec': "\<And>c' b'. c' \<in> set cs \<Longrightarrow> al < b' \<Longrightarrow> bounded al b' (fst (rec al b' c')) (V c')"
      using Cons.prems(1) by simp
    have b': "min b ?e = min be (min m ?e)" using Cons.prems(2) by (simp add: min.assoc)
    have m': "al < min m ?e" using e_gt Cons.prems(4) by simp
    have b1: "min be m \<le> ?e \<longrightarrow> ?e \<le> V c" and b2: "al < ?e \<and> ?e < min be m \<longrightarrow> ?e = V c"
      using bc Cons.prems(2) by (simp_all add: bounded_def)
    note r = min_step_rel [OF b1 b2 e_gt Cons.prems(5,6)]
    from Cons.IH [OF rec' b' Cons.prems(3) m' r] False
    show ?thesis by (simp add: Let_def)
  qed
qed

lemma ab_bounded:
  "al < be \<Longrightarrow> bounded al be (fst (ab R d al be mx p)) (full_minimax R d mx p)"
proof (induction d arbitrary: al be mx p)
  case 0
  then show ?case by (simp add: bounded_def)
next
  case (Suc d)
  show ?case
  proof (cases "is_game_over R p")
    case True
    then show ?thesis by (simp add: bounded_def)
  next
    case False
    have lo: "NegInf < be" and hi: "al < PosInf"
      using Suc.prems by (cases al; cases be; simp)+
    show ?thesis
    proof (cases mx)
      case True
      have "bounded al be
              (fst (ab_max_loop (\<lambda>al be. ab R d al be False)
                     (map (apply_move R p) (legal_moves R p)) NegInf al be 1))
              (fold (\<lambda>c best. max best (full_minimax R d False c))
                     (map (apply_move R p) (legal_moves R p)) NegInf)"
        by (rule ab_max_loop_bounded) (simp_all add: Suc.IH Suc.prems lo max_def)
      then show ?thesis using False True by (simp add: Let_def)
    next
      case mxF: False
      have "bounded al be
              (fst (ab_min_loop (\<lambda>al be. ab R d al be True)
                     (map (apply_move R p) (legal_moves R p)) PosInf al be 1))
              (fold (\<lambda>c best. min best (full_minimax R d True c))
                     (map (apply_move R p) (legal_moves R p)) PosInf)"
        by (rule ab_min_loop_bounded) (simp_all add: Suc.IH Suc.prems hi min_def)
      then show ?thesis using False mxF by (simp add: Let_def)
    qed
  qed
qed

lemma bounded_full_window: "bounded NegInf PosInf r v \<Longrightarrow> r = v"
  by (cases r; cases v) (auto simp: bounded_def)

section \<open>Finite scores and node counts\<close>

lemma max_fin: "m \<noteq> PosInf \<Longrightarrow> \<exists>y. max m (Fin x) = Fin (y::int)"
  by (cases m) (auto simp: max_def)

lemma min_fin: "m \<noteq> NegInf \<Longrightarrow> \<exists>y. min m (Fin x) = Fin (y::int)"
  by (cases m) (auto simp: min_def)

lemma ab_max_loop_fin:
  assumes "\<And>c a b. c \<in> set cs \<Longrightarrow> \<exists>x. fst (rec a b c) = Fin x"
    and "m \<noteq> PosInf" and "cs \<noteq> [] \<or> m \<noteq> NegInf"
  shows "\<exists>x. fst (ab_max_loop rec cs m al be n) = Fin x"
  using assms
proof (induction cs arbitrary: m al n)
  case Nil
  then show ?case by (cases m) auto
next
  case (Cons c cs)
  obtain x where e: "fst (rec al be c) = Fin x" using Cons.prems(1) [of c al be] by auto
  obtain y where m': "max m (fst (rec al be c)) = Fin y"
    using max_fin [OF Cons.prems(2), of x] e by auto
  have rec': "\<And>c' a b. c' \<in> set cs \<Longrightarrow> \<exists>x. fst (rec a b c') = Fin x"
    using Cons.prems(1) by simp
  have "\<exists>z. fst (ab_max_loop rec cs (Fin y) (max al (Fin x)) be (n + snd (rec al be c))) = Fin z"
    by (rule Cons.IH [OF rec']) simp_all
  then show ?case using e m' by (simp add: Let_def)
qed

lemma ab_min_loop_fin:
  assumes "\<And>c a b. c \<in> set cs \<Longrightarrow> \<exists>x. fst (rec a b c) = Fin x"
    and "m \<noteq> NegInf" and "cs \<noteq> [] \<or> m \<noteq> PosInf"
  shows "\<exists>x. fst (ab_min_loop rec cs m al be n) = Fin x"
  using assms
proof (induction cs arbitrary: m be n)
  case Nil
  then show ?case by (cases m) auto
next
  case (Cons c cs)
  obtain x where e: "fst (rec al be c) = Fin x" using Cons.prems(1) [of c al be] by auto
  obtain y where m': "min m (fst (rec al be c)) = Fin y"
    using min_fin [OF Cons.prems(2), of x] e by auto
  have rec': "\<And>c' a b. c' \<in> set cs \<Longrightarrow> \<exists>x. fst (rec a b c') = Fin x"
    using Cons.prems(1) by simp
  have "\<exists>z. fst (ab_min_loop rec cs (Fin y) al (min be (Fin x)) (n + snd (rec al be c))) = Fin z"
    by (rule Cons.IH [OF rec']) simp_all
  then show ?case using e m' by (simp add: Let_def)
qed

lemma ab_fin:
  assumes "consistent R"
  shows "\<exists>x. fst (ab R d al be mx p) = Fin x"
proof (induction d arbitrary: al be mx p)
  case 0
  then show ?case by simp
next
  case (Suc d)
  show ?case
  proof (cases "is_game_over R p")
    case True
    then show ?thesis by simp
  next
    case False
    have ne: "legal_moves R p \<noteq> []"
      using assms False unfolding consistent_def by blast
    show ?thesis
    proof (cases mx)
      case True
      have "\<exists>x. fst (ab_max_loop (\<lambda>al be. ab R d al be False)
                    (map (apply_move R p) (legal_moves R p)) NegInf al be 1) = Fin x"
        by (rule ab_max_loop_fin) (simp_all add: Suc.IH ne)
      then show ?thesis using False True by (simp add: Let_def)
    next
      case mxF: False
      have "\<exists>x. fst (ab_min_loop (\<lambda>al be. ab R d al be True)
                    (map (apply_move R p) (legal_moves R p)) PosInf al be 1) = Fin x"
        by (rule ab_min_loop_fin) (simp_all add: Suc.IH ne)
      then show ?thesis using False mxF by (simp add: Let_def)
    qed
  qed
qed

lemma ab_root_loop_keeps:
  assumes "m0 \<in> S" and "set ms \<subseteq> S" and "NegInf < bs"
  shows "\<exists>m' bs' al' n'. ab_root_loop R d p ms (Some m0) bs al be n = (Some m', bs', al', n') \<and>
           m' \<in> S \<and> NegInf < bs'"
  using assms
proof (induction ms arbitrary: m0 bs al n)
  case Nil
  then show ?case by simp
next
  case (Cons m ms)
  let ?score = "neg (fst (ab R d (neg be) (neg al) False (apply_move R p m)))"
  show ?case
  proof (cases "bs < ?score")
    case True
    have "NegInf < ?score" using Cons.prems(3) True by (rule less_trans)
    with Cons.IH [of m ?score] Cons.prems True show ?thesis
      by (simp add: Let_def)
  next
    case False
    with Cons.IH [of m0 bs] Cons.prems show ?thesis
      by (simp add: Let_def)
  qed
qed

lemma ab_root_loop_selects:
  assumes "consistent R" and "ms \<noteq> []"
  shows "\<exists>m' bs' al' n'. ab_root_loop R d p ms None NegInf al be n = (Some m', bs', al', n') \<and>
           m' \<in> set ms \<and> NegInf < bs'"
proof (cases ms)
  case Nil
  then show ?thesis using assms by simp
next
  case (Cons m rest)
  obtain x where x: "fst (ab R d (neg be) (neg al) False (apply_move R p m)) = Fin x"
    using ab_fin [OF assms(1)] by blast
  have "\<exists>m' bs' al' n'.
          ab_root_loop R d p rest (Some m) (Fin (- x)) (max al (Fin (- x))) be
            (n + snd (ab R d (neg be) (neg al) False (apply_move R p m))) = (Some m', bs', al', n') \<and>
          m' \<in> set ms \<and> NegInf < bs'"
    by (rule ab_root_loop_keeps) (auto simp: Cons)
  then show ?thesis using Cons x by (simp add: Let_def)
qed

lemma ab_max_loop_count_ge: "n \<le> snd (ab_max_loop rec cs m al be n)"
  using ab_max_loop_count [of rec cs m al be n 0] by simp

lemma ab_min_loop_count_ge: "n \<le> snd (ab_min_loop rec cs m al be n)"
  using ab_min_loop_count [of rec cs m al be n 0] by simp

lemma ab_count_pos: "1 \<le> snd (ab R d al be mx p)"
  by (cases d) (simp_all add: Let_def ab_max_loop_count_ge ab_min_loop_count_ge)

lemma ab_root_loop_count_ge:
  "n + length ms \<le> snd (snd (snd (ab_root_loop R d p ms bm bs al be n)))"
proof (induction ms arbitrary: bm bs al n)
  case Nil
  then show ?case by simp
next
  case (Cons m ms)
  let ?k = "snd (ab R d (neg be) (neg al) False (apply_move R p m))"
  have "1 \<le> ?k" by (rule ab_count_pos)
  then have "n + length (m # ms) \<le> (n + ?k) + length ms" by simp
  also have "\<dots> \<le> snd (snd (snd (ab_root_loop R d p (m # ms) bm bs al be n)))"
    using Cons.IH [where n = "n + ?k"] by (simp add: Let_def)
  finally show ?case .
qed

lemma ab_root_loop_count_depth0:
  "snd (snd (snd (ab_root_loop R 0 p ms bm bs al be n))) = n + length ms"
  by (induction ms arbitrary: bm bs al n) (simp_all add: Let_def)

lemma ab_max_loop_count_gt:
  assumes "cs \<noteq> []" and "\<And>a b c. 1 \<le> snd (rec a b c)"
  shows "Suc n \<le> snd (ab_max_loop rec cs m al be n)"
proof (cases cs)
  case Nil
  then show ?thesis using assms(1) by simp
next
  case (Cons c cs')
  let ?r = "rec al be c"
  have k: "1 \<le> snd ?r" by (rule assms(2))
  have "n + snd ?r \<le> snd (ab_max_loop rec cs' (max m (fst ?r)) (max al (fst ?r)) be (n + snd ?r))"
    by (rule ab_max_loop_count_ge)
  then show ?thesis using k by (auto simp: Cons Let_def)
qed

lemma ab_min_loop_count_gt:
  assumes "cs \<noteq> []" and "\<And>a b c. 1 \<le> snd (rec a b c)"
  shows "Suc n \<le> snd (ab_min_loop rec cs m al be n)"
proof (cases cs)
  case Nil
  then show ?thesis using assms(1) by simp
next
  case (Cons c cs')
  let ?r = "rec al be c"
  have k: "1 \<le> snd ?r" by (rule assms(2))
  have "n + snd ?r \<le> snd (ab_min_loop rec cs' (min m (fst ?r)) al (min be (fst ?r)) (n + snd ?r))"
    by (rule ab_min_loop_count_ge)
  then show ?thesis using k by (auto simp: Cons Let_def)
qed

lemma ab_count_inner:
  assumes "consistent R" and "\<not> is_game_over R p"
  shows "2 \<le> snd (ab R (Suc d) al be mx p)"
proof -
  have ne: "map (apply_move R p) (legal_moves R p) \<noteq> []"
    using assms unfolding consistent_def by simp blast
  have a: "Suc 1 \<le> snd (ab_max_loop (\<lambda>al be. ab R d al be False)
                        (map (apply_move R p) (legal_moves R p)) NegInf al be 1)"
    using ne by (rule ab_max_loop_count_gt) (rule ab_count_pos)
  have b: "Suc 1 \<le> snd (ab_min_loop (\<lambda>al be. ab R d al be True)
                        (map (apply_move R p) (legal_moves R p)) PosInf al be 1)"
    using ne by (rule ab_min_loop_count_gt) (rule ab_count_pos)
  show ?thesis using assms(2) a b by (simp add: Let_def)
qed

lemma ab_root_loop_count_gt:
  assumes "consistent R" and "m \<in> set ms" and "\<not> is_game_over R (apply_move R p m)"
  shows "n + length ms < snd (snd (snd (ab_root_loop R (Suc d) p ms bm bs al be n)))"
  using assms(2)
proof (induction ms arbitrary: bm bs al n)
  case Nil
  then show ?case by simp
next
  case (Cons m' ms)
  let ?k = "snd (ab R (Suc d) (neg be) (neg al) False (apply_move R p m'))"
  show ?case
  proof (cases "m' = m")
    case True
    have "2 \<le> ?k" by (rule ab_count_inner [OF assms(1)]) (simp add: True assms(3))
    then have "n + length (m' # ms) < (n + ?k) + length ms" by simp
    also have "\<dots> \<le> snd (snd (snd (ab_root_loop R (Suc d) p (m' # ms) bm bs al be n)))"
      using ab_root_loop_count_ge [of "n + ?k" ms R "Suc d" p] by (simp add: Let_def)
    finally show ?thesis .
  next
    case False
    then have "m \<in> set ms" using Cons.prems by simp
    have "1 \<le> ?k" by (rule ab_count_pos)
    then have "n + length (m' # ms) \<le> (n + ?k) + length ms" by simp
    also have "\<dots> < snd (snd (snd (ab_root_loop R (Suc d) p (m' # ms) bm bs al be n)))"
      using Cons.IH [OF \<open>m \<in> set ms\<close>, where n = "n + ?k"] by (simp add: Let_def)
    finally show ?thesis .
  qed
qed

section \<open>Evaluating the recorded positions\<close>

text \<open>The squares, rank by rank.\<close>

lemma squares_list:
  "SQUARES =
     [0, 1, 2, 3, 4, 5, 6, 7] @
     [8, 9, 10, 11, 12, 13, 14, 15] @
     [16, 17, 18, 19, 20, 21, 22, 23] @
     [24, 25, 26, 27, 28, 29, 30, 31] @
     [32, 33, 34, 35, 36, 37, 38, 39] @
     [40, 41, 42, 43, 44, 45, 46, 47] @
     [48, 49, 50, 51, 52, 53, 54, 55] @
     [56, 57, 58, 59, 60, 61, 62, 63]"
  unfolding SQUARES_def by code_simp

lemmas snapshot_eval_defs =
  evaluate_def snapshot_oracle_def squares_list add_square_def
  PIECE_VALUES_def pos_bonus_def PAWN_TABLE_def KNIGHT_TABLE_def

lemma kp_moves:
  "legal_moves (kp_rules t) (kp_position t) =
     [''b6c6'', ''b6a6'', ''b6c5'', ''b6b5'', ''b6a5'', ''c7c8q'', ''c7c8r'', ''c7c8b'', ''c7c8n'']"
  by (simp add: kp_rules_def snapshot_oracle_def kp_position_def)

lemma kp_values:
  "map (\<lambda>m. evaluate (kp_rules t) (apply_move (kp_rules t) (kp_position t) m))
     (legal_moves (kp_rules t) (kp_position t)) =
     [100, 0, 90, 90, 90, 20000, 20000, 0, 0]"
  by (simp add: kp_rules_def kp_position_def kp_after_def kp_promoted_def snapshot_eval_defs)


lemma kp_uci: "uci (kp_rules t) m = m"
  by (simp add: kp_rules_def snapshot_oracle_def)

lemma kp_value_facts:
  "evaluate (kp_rules t) (apply_move (kp_rules t) (kp_position t) ''b6c6'') = 100"
  "evaluate (kp_rules t) (apply_move (kp_rules t) (kp_position t) ''b6a6'') = 0"
  "evaluate (kp_rules t) (apply_move (kp_rules t) (kp_position t) ''b6c5'') = 90"
  "evaluate (kp_rules t) (apply_move (kp_rules t) (kp_position t) ''b6b5'') = 90"
  "evaluate (kp_rules t) (apply_move (kp_rules t) (kp_position t) ''b6a5'') = 90"
  "evaluate (kp_rules t) (apply_move (kp_rules t) (kp_position t) ''c7c8q'') = 20000"
  "evaluate (kp_rules t) (apply_move (kp_rules t) (kp_position t) ''c7c8r'') = 20000"
  "evaluate (kp_rules t) (apply_move (kp_rules t) (kp_position t) ''c7c8b'') = 0"
  "evaluate (kp_rules t) (apply_move (kp_rules t) (kp_position t) ''c7c8n'') = 0"
  using kp_values [of t] unfolding kp_moves by simp_all

lemma kp_root:
  "ab_root_loop (kp_rules t) 0 (kp_position t) (legal_moves (kp_rules t) (kp_position t))
     None NegInf NegInf PosInf 0 = (Some ''b6a6'', Fin 0, Fin 0, 9)"
  unfolding kp_moves by (simp add: kp_value_facts Let_def)

lemma kp_best:
  "get_best_move 1 (kp_rules t) rnd (init_engine 1) kp_fen =
     Inr ((''b6a6'', Fin 0, 1, 9, [''b6a6'']), \<lparr>depth = 1, nodes_searched = 9, pv = []\<rparr>)"
proof -
  have h4: "1 \<le> depth (init_engine 1)" and h5: "nat (depth (init_engine 1) - 1) < (1::nat)"
    by (simp_all add: init_engine_def)
  have d: "nat (depth (init_engine 1) - 1) = 0" by (simp add: init_engine_def)
  show ?thesis
    apply (subst get_best_move_ab [OF kp_from_fen kp_not_over kp_has_moves h4 h5])
    apply (simp add: root_activations_def d kp_root Let_def kp_uci)
    apply (simp add: init_engine_def)
    done
qed

lemma kp_consistent: "consistent (kp_rules t)"
  by (simp add: kp_rules_def snapshot_oracle_consistent)

lemma locked_consistent: "consistent (locked_rules t)"
  by (simp add: locked_rules_def snapshot_oracle_consistent)

lemma init_engine_depth: "depth (init_engine d) = d"
  by (simp add: init_engine_def)

section \<open>The sign convention of the root\<close>

text \<open>
  Claim C1 says that the root loop maximizes the scores that the recursive search
  returns, with no negation. The program does not: in the position
  \<open>k7/2P5/1K6/8/8/8/8/8 w - - 0 1\<close> with depth one, the recursive search returns
  the scores 100, 0, 90, 90, 90, 20000, 20000, 0, 0 for the nine root moves (from
  white's side, the two mating promotions at 20000), and the root loop, which negates
  each of them, ends with the best score 0 and the move \<open>b6a6\<close>.
\<close>

theorem root_negates_search_scores:
  "map (\<lambda>m. map_sum id fst
              (minimax 1 (kp_rules t) 0 NegInf PosInf False
                 (push (kp_rules t) m (new_board (kp_position t))) (init_engine 1)))
     (legal_moves (kp_rules t) (kp_position t)) =
     [Inr (Fin 100), Inr (Fin 0), Inr (Fin 90), Inr (Fin 90), Inr (Fin 90),
      Inr (Fin 20000), Inr (Fin 20000), Inr (Fin 0), Inr (Fin 0)] \<and>
   root_loop 1 (kp_rules t) (legal_moves (kp_rules t) (kp_position t))
     None NegInf NegInf PosInf (new_board (kp_position t)) (init_engine 1) =
     Inr (Some ''b6a6'', Fin 0, Fin 0, new_board (kp_position t),
          init_engine 1\<lparr>nodes_searched := 9\<rparr>)"
proof
  have cur: "current (new_board (kp_position t)) = kp_position t"
    by (simp add: new_board_def)
  show "map (\<lambda>m. map_sum id fst
              (minimax 1 (kp_rules t) 0 NegInf PosInf False
                 (push (kp_rules t) m (new_board (kp_position t))) (init_engine 1)))
     (legal_moves (kp_rules t) (kp_position t)) =
     [Inr (Fin 100), Inr (Fin 0), Inr (Fin 90), Inr (Fin 90), Inr (Fin 90),
      Inr (Fin 20000), Inr (Fin 20000), Inr (Fin 0), Inr (Fin 0)]"
    unfolding kp_moves by (simp add: cur kp_value_facts Let_def)
next
  have h1: "1 \<le> depth (init_engine 1)" and h2: "nat (depth (init_engine 1) - 1) < (1::nat)"
    by (simp_all add: init_engine_def)
  have d: "nat (depth (init_engine 1) - 1) = 0" and n: "nodes_searched (init_engine 1) = 0"
    by (simp_all add: init_engine_def)
  have c: "current (new_board (kp_position t)) = kp_position t"
    by (simp add: new_board_def)
  show "root_loop 1 (kp_rules t) (legal_moves (kp_rules t) (kp_position t))
     None NegInf NegInf PosInf (new_board (kp_position t)) (init_engine 1) =
     Inr (Some ''b6a6'', Fin 0, Fin 0, new_board (kp_position t),
          init_engine 1\<lparr>nodes_searched := 9\<rparr>)"
    apply (subst root_loop_ab [OF h1 h2])
    apply (simp add: d n c kp_root Let_def)
    done
qed

section \<open>Mate in one\<close>

text \<open>
  At every depth the search scores a state in which black is checkmated at 20000, so the
  root loop, which negates, compares a move of white that mates at minus 20000.
\<close>

lemma mate_score:
  assumes "is_game_over R c" and "is_checkmate R c" and "\<not> turn R c"
  shows "ab R d al be mx c = (Fin 20000, 1)"
  using assms by (cases d) (simp_all add: evaluate_def)

lemma mate_score_at_root:
  assumes "is_game_over R (apply_move R p m)" and "is_checkmate R (apply_move R p m)"
    and "\<not> turn R (apply_move R p m)"
  shows "ab_root_loop R d p (m # ms) bm bs al be n =
           ab_root_loop R d p ms
             (if bs < Fin (- 20000) then Some m else bm)
             (if bs < Fin (- 20000) then Fin (- 20000) else bs)
             (max al (Fin (- 20000))) be (n + 1)"
  by (simp add: mate_score [OF assms] Let_def)

text \<open>
  Claim C2 says that \<open>get_best_move\<close> returns a move that mates in one, with a score at
  the mate threshold. The program does not when white is to move: in the position
  \<open>k7/2P5/1K6/8/8/8/8/8 w - - 0 1\<close> the move \<open>c7c8q\<close> is legal and gives checkmate,
  and \<open>get_best_move\<close> with depth one returns \<open>b6a6\<close>, which stalemates, with the
  score 0.
\<close>

theorem mate_in_one_not_played:
  "''c7c8q'' \<in> set (legal_moves (kp_rules t) (kp_position t)) \<and>
   is_checkmate (kp_rules t) (apply_move (kp_rules t) (kp_position t) ''c7c8q'') \<and>
   is_stalemate (kp_rules t) (apply_move (kp_rules t) (kp_position t) ''b6a6'') \<and>
   get_best_move 1 (kp_rules t) rnd (init_engine 1) kp_fen =
     Inr ((''b6a6'', Fin 0, 1, 9, [''b6a6'']), \<lparr>depth = 1, nodes_searched = 9, pv = []\<rparr>)"
proof (intro conjI)
  show "''c7c8q'' \<in> set (legal_moves (kp_rules t) (kp_position t))"
    unfolding kp_moves by simp
  show "is_checkmate (kp_rules t) (apply_move (kp_rules t) (kp_position t) ''c7c8q'')"
    by (simp add: kp_rules_def snapshot_oracle_def kp_position_def)
  show "is_stalemate (kp_rules t) (apply_move (kp_rules t) (kp_position t) ''b6a6'')"
    by (simp add: kp_rules_def snapshot_oracle_def kp_position_def)
  show "get_best_move 1 (kp_rules t) rnd (init_engine 1) kp_fen =
     Inr ((''b6a6'', Fin 0, 1, 9, [''b6a6'']), \<lparr>depth = 1, nodes_searched = 9, pv = []\<rparr>)"
    by (rule kp_best)
qed

section \<open>Pruning equivalence\<close>

text \<open>
  Claim C3. For every position and every depth that is not negative, the search called
  with the full window, from minus infinity to plus infinity, returns the score that
  minimax without pruning returns on the same tree, with the same order of moves and the
  same evaluation at the leaves; the board comes back unchanged and only the node count
  depends on the pruning.
\<close>

theorem alpha_beta_equals_full_minimax:
  assumes "0 \<le> d" and "nat d < frames"
  shows "\<exists>self'. minimax frames R d NegInf PosInf mx b self =
           Inr (full_minimax R (nat d) mx (current b), b, self')"
proof -
  have "bounded NegInf PosInf (fst (ab R (nat d) NegInf PosInf mx (current b)))
          (full_minimax R (nat d) mx (current b))"
    by (rule ab_bounded) simp
  then have "fst (ab R (nat d) NegInf PosInf mx (current b)) = full_minimax R (nat d) mx (current b)"
    by (rule bounded_full_window)
  then show ?thesis
    by (simp add: minimax_ab [OF assms])
qed

theorem alpha_beta_equals_full_minimax_witness:
  "\<exists>self'. minimax 4 (locked_rules unrecorded) 3 NegInf PosInf False (new_board (locked_position unrecorded)) (init_engine 4) =
     Inr (full_minimax (locked_rules unrecorded) (nat 3) False (current (new_board (locked_position unrecorded))),
          new_board (locked_position unrecorded), self')"
proof -
  have h1: "(0::int) \<le> 3" and h2: "nat 3 < (4::nat)" by simp_all
  show ?thesis by (rule alpha_beta_equals_full_minimax [OF h1 h2])
qed

section \<open>The initial position\<close>

text \<open>
  Claim C4. On the initial position of chess (the standard placement, white to move,
  twenty legal moves, the game not over) \<open>evaluate\<close> returns exactly 200 centipawns:
  material and the pawn and knight tables cancel, and the mobility term is ten times
  twenty. Divided by 100, as in the result of \<open>get_best_move\<close>, this is 2.
\<close>

theorem initial_position_evaluation:
  assumes "\<forall>sq<64. piece_at R p sq = map_of initial_placement sq" and "turn R p"
    and "length (legal_moves R p) = 20" and "\<not> is_checkmate R p" and "\<not> is_stalemate R p"
    and "\<not> is_insufficient_material R p"
  shows "evaluate R p = 200 \<and> to_pawns (Fin (evaluate R p)) = Fin 2"
proof -
  have "fold (add_square R p) SQUARES 0 = 0"
    using assms(1)
    by (simp add: squares_list add_square_def initial_placement_def PIECE_VALUES_def
        pos_bonus_def PAWN_TABLE_def KNIGHT_TABLE_def)
  then have "evaluate R p = 200"
    using assms(2-6) by (simp add: evaluate_def)
  then show ?thesis by simp
qed

theorem initial_position_evaluation_witness:
  "evaluate (snapshot_oracle []) (initial_position unrecorded) = 200 \<and>
   to_pawns (Fin (evaluate (snapshot_oracle []) (initial_position unrecorded))) = Fin 2"
proof -
  have h1: "\<forall>sq<64. piece_at (snapshot_oracle []) (initial_position unrecorded) sq =
              map_of initial_placement sq"
    by (simp add: snapshot_oracle_def initial_position_def)
  have h2: "turn (snapshot_oracle []) (initial_position unrecorded)"
    by (simp add: snapshot_oracle_def initial_position_def)
  have h3: "length (legal_moves (snapshot_oracle []) (initial_position unrecorded)) = 20"
    by (simp add: snapshot_oracle_def initial_position_def initial_moves_def)
  have h4: "\<not> is_checkmate (snapshot_oracle []) (initial_position unrecorded)"
    by (simp add: snapshot_oracle_def initial_position_def)
  have h5: "\<not> is_stalemate (snapshot_oracle []) (initial_position unrecorded)"
    by (simp add: snapshot_oracle_def initial_position_def initial_moves_def)
  have h6: "\<not> is_insufficient_material (snapshot_oracle []) (initial_position unrecorded)"
    by (simp add: snapshot_oracle_def initial_position_def)
  show ?thesis by (rule initial_position_evaluation [OF h1 h2 h3 h4 h5 h6])
qed

section \<open>State restoration\<close>

text \<open>
  Claim C5. A call of the recursive search with a depth that is not negative returns
  with the board exactly as it was when the call started, and so does the loop over the
  root moves of \<open>get_best_move\<close>: every \<open>push\<close> is followed by its \<open>pop\<close> on every
  path, the paths that leave a loop at a cutoff included. Both calls do return, given
  the stack frames for the depth.
\<close>

theorem search_restores_board:
  assumes "0 \<le> d" and "nat d < frames" and "1 \<le> depth self" and "nat (depth self - 1) < frames"
  shows "(\<exists>v self'. minimax frames R d al be mx b self = Inr (v, b, self')) \<and>
         (\<exists>bm' bs' al' self'.
            root_loop frames R ms bm bs al be b self = Inr (bm', bs', al', b, self'))"
  by (simp add: minimax_ab [OF assms(1,2)] root_loop_ab [OF assms(3,4)] Let_def)

theorem search_restores_board_witness:
  "(\<exists>v self'. minimax 4 (locked_rules unrecorded) 3 NegInf PosInf False (new_board (locked_position unrecorded)) (init_engine 4) =
        Inr (v, new_board (locked_position unrecorded), self')) \<and>
   (\<exists>bm' bs' al' self'.
      root_loop 4 (locked_rules unrecorded) [''f1f2'', ''f1e2'', ''f1e1''] None NegInf NegInf PosInf (new_board (locked_position unrecorded)) (init_engine 4) =
        Inr (bm', bs', al', new_board (locked_position unrecorded), self'))"
proof -
  have h1: "(0::int) \<le> 3" and h2: "nat 3 < (4::nat)" by simp_all
  have h3: "1 \<le> depth (init_engine 4)" and h4: "nat (depth (init_engine 4) - 1) < (4::nat)"
    by (simp_all add: init_engine_def)
  show ?thesis by (rule search_restores_board [OF h1 h2 h3 h4])
qed

section \<open>The node counter\<close>

lemma activations_leaf: "activations R 0 al be mx p = 1"
  by (simp add: activations_def)

lemma activations_game_over: "is_game_over R p \<Longrightarrow> activations R d al be mx p = 1"
  by (cases d) (simp_all add: activations_def)

text \<open>
  Claim C6. \<open>get_best_move\<close> sets the node counter to zero before the search, and
  every activation of \<open>_minimax\<close> (a leaf or a finished game included) adds one to it
  first. So a call of \<open>_minimax\<close> adds to the counter the number of activations it
  performs, and the node count that \<open>get_best_move\<close> returns is the number of
  activations performed during the call, whatever the counter held before.
\<close>

theorem node_counter_counts_activations:
  assumes "from_fen R fen = Some p" and "\<not> is_game_over R p" and "legal_moves R p \<noteq> []"
    and "1 \<le> depth self" and "nat (depth self - 1) < frames"
    and "0 \<le> d" and "nat d < frames"
  shows "(\<exists>v. minimax frames R d al be mx b eng =
               Inr (v, b, eng\<lparr>nodes_searched :=
                            nodes_searched eng + activations R (nat d) al be mx (current b)\<rparr>)) \<and>
         (\<exists>mv sc pvl self'.
            get_best_move frames R rnd self fen =
              Inr ((mv, sc, depth self, root_activations R (nat (depth self - 1)) p, pvl), self') \<and>
            nodes_searched self' = root_activations R (nat (depth self - 1)) p)"
  by (simp add: minimax_ab [OF assms(6,7)] get_best_move_ab [OF assms(1-5)] Let_def activations_def)

theorem node_counter_counts_activations_witness:
  "(\<exists>v. minimax 1 (kp_rules unrecorded) 0 NegInf PosInf False (new_board (kp_position unrecorded))
           (init_engine 1\<lparr>nodes_searched := 5\<rparr>) =
           Inr (v, new_board (kp_position unrecorded),
                init_engine 1\<lparr>nodes_searched := 5\<rparr>\<lparr>nodes_searched :=
                  nodes_searched (init_engine 1\<lparr>nodes_searched := 5\<rparr>) +
                  activations (kp_rules unrecorded) (nat 0) NegInf PosInf False
                    (current (new_board (kp_position unrecorded)))\<rparr>)) \<and>
   (\<exists>mv sc pvl self'.
      get_best_move 1 (kp_rules unrecorded) 0 (init_engine 1\<lparr>nodes_searched := 5\<rparr>) kp_fen =
        Inr ((mv, sc, depth (init_engine 1\<lparr>nodes_searched := 5\<rparr>),
              root_activations (kp_rules unrecorded)
                (nat (depth (init_engine 1\<lparr>nodes_searched := 5\<rparr>) - 1))
                (kp_position unrecorded), pvl), self') \<and>
      nodes_searched self' =
        root_activations (kp_rules unrecorded)
          (nat (depth (init_engine 1\<lparr>nodes_searched := 5\<rparr>) - 1)) (kp_position unrecorded))"
proof -
  have h4: "1 \<le> depth (init_engine 1\<lparr>nodes_searched := 5\<rparr>)"
    and h5: "nat (depth (init_engine 1\<lparr>nodes_searched := 5\<rparr>) - 1) < (1::nat)"
    by (simp_all add: init_engine_def)
  have h6: "(0::int) \<le> 0" and h7: "nat 0 < (1::nat)" by simp_all
  show ?thesis
    by (rule node_counter_counts_activations
          [OF kp_from_fen kp_not_over kp_has_moves h4 h5 h6 h7])
qed

section \<open>Errors\<close>

text \<open>
  Claim C7 says that \<open>get_best_move\<close> raises an error if and only if a precondition
  is violated. The configured depth is among the preconditions (at least one), and the
  program never tests it: on the position \<open>1k6/8/8/8/8/8/q7/K7 w - - 0 1\<close>, which is
  not finished and has a legal move, an engine configured with depth zero returns
  \<open>a1a2\<close> with score 0, depth 0 and one node, and raises nothing.
\<close>

theorem depth_zero_returns_counterexample:
  "depth (init_engine 0) < 1 \<and>
   get_best_move 1000 (capture_rules unrecorded) 0 (init_engine 0) capture_fen =
     Inr ((''a1a2'', Fin 0, 0, 1, [''a1a2'']), \<lparr>depth = 0, nodes_searched = 1, pv = []\<rparr>)"
proof
  show "depth (init_engine 0) < 1"
    by (simp add: init_engine_def)
  show "get_best_move 1000 (capture_rules unrecorded) 0 (init_engine 0) capture_fen =
     Inr ((''a1a2'', Fin 0, 0, 1, [''a1a2'']), \<lparr>depth = 0, nodes_searched = 1, pv = []\<rparr>)"
    by code_simp
qed

text \<open>
  Claim C7, amended. For a configured depth of at least one, \<open>get_best_move\<close> fails
  exactly when the position breaks a precondition: on a finished game it raises the
  game-over error, on a game that is not finished but has no legal move it raises the
  no-legal-moves error, and on a game that is not finished and has a legal move it
  returns a result. Which error is raised depends on the position only.
\<close>

theorem get_best_move_errors:
  assumes "from_fen R fen = Some p" and "1 \<le> depth self" and "nat (depth self - 1) < frames"
  shows "(is_game_over R p \<longrightarrow> get_best_move frames R rnd self fen = Inl GameOver) \<and>
         (\<not> is_game_over R p \<and> legal_moves R p = [] \<longrightarrow>
            get_best_move frames R rnd self fen = Inl NoLegalMoves) \<and>
         (\<not> is_game_over R p \<and> legal_moves R p \<noteq> [] \<longrightarrow>
            (\<exists>r. get_best_move frames R rnd self fen = Inr r))"
proof (intro conjI impI)
  assume "is_game_over R p"
  then show "get_best_move frames R rnd self fen = Inl GameOver"
    using assms(1) by (simp add: get_best_move_def new_board_def)
next
  assume "\<not> is_game_over R p \<and> legal_moves R p = []"
  then show "get_best_move frames R rnd self fen = Inl NoLegalMoves"
    using assms(1) by (simp add: get_best_move_def new_board_def)
next
  assume "\<not> is_game_over R p \<and> legal_moves R p \<noteq> []"
  then show "\<exists>r. get_best_move frames R rnd self fen = Inr r"
    using get_best_move_ab [OF assms(1) _ _ assms(2,3), of rnd] by (simp add: Let_def)
qed

theorem get_best_move_errors_witness:
  "(\<exists>r. get_best_move 1 (kp_rules unrecorded) 0 (init_engine 1) kp_fen = Inr r) \<and>
   get_best_move 1 (snapshot_oracle [(stalemate_fen, stalemate_position)]) 0 (init_engine 1) stalemate_fen =
     Inl GameOver \<and>
   get_best_move 1 (snapshot_oracle [(stalemate_fen, stalemate_position)]\<lparr>is_game_over := \<lambda>s. False\<rparr>) 0
     (init_engine 1) stalemate_fen = Inl NoLegalMoves"
proof (intro conjI)
  have h2: "1 \<le> depth (init_engine 1)" and h3: "nat (depth (init_engine 1) - 1) < (1::nat)"
    by (simp_all add: init_engine_def)
  show "\<exists>r. get_best_move 1 (kp_rules unrecorded) 0 (init_engine 1) kp_fen = Inr r"
    using get_best_move_errors [OF kp_from_fen h2 h3, of unrecorded 0] kp_not_over kp_has_moves
    by blast
  let ?R = "snapshot_oracle [(stalemate_fen, stalemate_position)]"
  have f: "from_fen ?R stalemate_fen = Some stalemate_position"
    by (simp add: snapshot_oracle_def)
  have o: "is_game_over ?R stalemate_position"
    by (simp add: snapshot_oracle_def stalemate_position_def)
  show "get_best_move 1 ?R 0 (init_engine 1) stalemate_fen = Inl GameOver"
    using get_best_move_errors [OF f h2 h3, of 0] o by blast
  let ?B = "?R\<lparr>is_game_over := \<lambda>s. False\<rparr>"
  have f': "from_fen ?B stalemate_fen = Some stalemate_position"
    by (simp add: snapshot_oracle_def)
  have o': "\<not> is_game_over ?B stalemate_position \<and> legal_moves ?B stalemate_position = []"
    by (simp add: snapshot_oracle_def stalemate_position_def)
  show "get_best_move 1 ?B 0 (init_engine 1) stalemate_fen = Inl NoLegalMoves"
    using get_best_move_errors [OF f' h2 h3, of 0] o' by blast
qed

section \<open>Node counts at growing depth\<close>

text \<open>
  Claim C8 says that the node count of \<open>get_best_move\<close> at depth \<open>d + 1\<close> is never
  below the count at depth \<open>d\<close>. It is false: on the position
  \<open>8/p7/P7/8/8/5p1p/5P1P/5k1K b - - 0 1\<close>, which is not finished and has three legal
  moves, the call reports 14 nodes at depth 4 and 13 nodes at depth 5, because the
  deeper search cuts off moves that the shallower one searches.
\<close>

theorem node_growth_counterexample:
  "get_best_move 5 (locked_rules unrecorded) 0 (init_engine 4) locked_fen =
     Inr ((''f1f2'', Fin 0, 4, 14, [''f1f2'']), \<lparr>depth = 4, nodes_searched = 14, pv = []\<rparr>) \<and>
   get_best_move 5 (locked_rules unrecorded) 0 (init_engine 5) locked_fen =
     Inr ((''f1f2'', Fin 0, 5, 13, [''f1f2'']), \<lparr>depth = 5, nodes_searched = 13, pv = []\<rparr>) \<and>
   \<not> (14::nat) \<le> 13"
proof (intro conjI)
  show "get_best_move 5 (locked_rules unrecorded) 0 (init_engine 4) locked_fen =
     Inr ((''f1f2'', Fin 0, 4, 14, [''f1f2'']), \<lparr>depth = 4, nodes_searched = 14, pv = []\<rparr>)"
    by code_simp
  show "get_best_move 5 (locked_rules unrecorded) 0 (init_engine 5) locked_fen =
     Inr ((''f1f2'', Fin 0, 5, 13, [''f1f2'']), \<lparr>depth = 5, nodes_searched = 13, pv = []\<rparr>)"
    by code_simp
  show "\<not> (14::nat) \<le> 13" by simp
qed

text \<open>
  Claim C8, amended. For every position that satisfies the preconditions and every
  configured depth of at least one, the node count at depth one is the number of legal
  moves of the root, and the node count at the configured depth is at least that; it is
  greater when the depth is at least two, the rules engine is consistent and some root
  move leads to a game that is not finished.
\<close>

theorem node_count_lower_bound:
  assumes "from_fen R fen = Some p" and "\<not> is_game_over R p" and "legal_moves R p \<noteq> []"
    and "1 \<le> depth self" and "nat (depth self - 1) < frames"
  shows "\<exists>mv1 sc1 pv1 s1 n1 mv sc pvl s n.
           get_best_move frames R rnd (self\<lparr>depth := 1\<rparr>) fen = Inr ((mv1, sc1, 1, n1, pv1), s1) \<and>
           get_best_move frames R rnd self fen = Inr ((mv, sc, depth self, n, pvl), s) \<and>
           n1 = length (legal_moves R p) \<and> n1 \<le> n \<and>
           (consistent R \<and> 2 \<le> depth self \<and>
            (\<exists>m \<in> set (legal_moves R p). \<not> is_game_over R (apply_move R p m)) \<longrightarrow> n1 < n)"
proof -
  let ?one = "self\<lparr>depth := 1\<rparr>"
  have o1: "1 \<le> depth ?one" and o2: "nat (depth ?one - 1) < frames"
    using assms(5) by simp_all
  have n1: "root_activations R (nat (depth ?one - 1)) p = length (legal_moves R p)"
    by (simp add: root_activations_def ab_root_loop_count_depth0)
  have ge: "length (legal_moves R p) \<le> root_activations R (nat (depth self - 1)) p"
    using ab_root_loop_count_ge [of 0 "legal_moves R p" R "nat (depth self - 1)" p None NegInf NegInf PosInf]
    by (simp add: root_activations_def)
  have gt: "length (legal_moves R p) < root_activations R (nat (depth self - 1)) p"
    if c: "consistent R" and d2: "2 \<le> depth self" and mm: "m \<in> set (legal_moves R p)"
      and no: "\<not> is_game_over R (apply_move R p m)" for m
  proof -
    obtain k where k: "nat (depth self - 1) = Suc k"
      using d2 by (cases "nat (depth self - 1)") auto
    show ?thesis
      using ab_root_loop_count_gt [OF c mm no, of 0 k None NegInf NegInf PosInf]
      by (simp add: root_activations_def k)
  qed
  show ?thesis
    apply (subst get_best_move_ab [OF assms(1-3) o1 o2])
    apply (subst get_best_move_ab [OF assms(1-5)])
    using n1 ge gt by (auto simp: Let_def)
qed

theorem node_count_lower_bound_witness:
  "\<exists>mv1 sc1 pv1 s1 n1 mv sc pvl s n.
     get_best_move 4 (locked_rules unrecorded) 0 (init_engine 4\<lparr>depth := 1\<rparr>) locked_fen =
       Inr ((mv1, sc1, 1, n1, pv1), s1) \<and>
     get_best_move 4 (locked_rules unrecorded) 0 (init_engine 4) locked_fen =
       Inr ((mv, sc, depth (init_engine 4), n, pvl), s) \<and>
     n1 = length (legal_moves (locked_rules unrecorded) (locked_position unrecorded)) \<and>
     n1 \<le> n \<and> n1 < n"
proof -
  have h4: "1 \<le> depth (init_engine 4)" and h5: "nat (depth (init_engine 4) - 1) < (4::nat)"
    by (simp_all add: init_engine_def)
  have d: "2 \<le> depth (init_engine 4)"
    by (simp add: init_engine_def)
  have m: "\<exists>m \<in> set (legal_moves (locked_rules unrecorded) (locked_position unrecorded)).
             \<not> is_game_over (locked_rules unrecorded)
                 (apply_move (locked_rules unrecorded) (locked_position unrecorded) m)"
    by (simp add: locked_rules_def snapshot_oracle_def locked_position_def)
  show ?thesis
    using node_count_lower_bound [OF locked_from_fen locked_not_over locked_has_moves h4 h5,
        of unrecorded 0]
      locked_consistent d m
    by metis
qed

section \<open>The fallback branch\<close>

text \<open>
  Claim C9. On a position that is not finished and has a legal move, with a configured
  depth of at least one and a consistent rules engine, the loop over the root moves
  always selects a move: it ends with \<open>best_move\<close> set to one of the legal moves and
  with a best score above minus infinity. So the branch for \<open>best_move is None\<close> is
  not taken, and the move and score that \<open>get_best_move\<close> returns are the ones the
  loop selected, whatever the random generator would draw.
\<close>

theorem fallback_unreachable:
  assumes "consistent R" and "from_fen R fen = Some p" and "\<not> is_game_over R p"
    and "legal_moves R p \<noteq> []" and "1 \<le> depth self" and "nat (depth self - 1) < frames"
  shows "\<exists>m sc al' self'.
           root_loop frames R (legal_moves R p) None NegInf NegInf PosInf (new_board p)
             (self\<lparr>nodes_searched := 0, pv := []\<rparr>) =
             Inr (Some m, sc, al', new_board p, self') \<and>
           m \<in> set (legal_moves R p) \<and> NegInf < sc \<and>
           (\<forall>rnd. get_best_move frames R rnd self fen =
              Inr ((uci R m, to_pawns sc, depth self, nodes_searched self', [uci R m]), self'))"
proof -
  let ?self1 = "self\<lparr>nodes_searched := 0, pv := []\<rparr>"
  have p1: "1 \<le> depth ?self1" and p2: "nat (depth ?self1 - 1) < frames"
    using assms by simp_all
  obtain m sc al' n where
    r: "ab_root_loop R (nat (depth self - 1)) p (legal_moves R p) None NegInf NegInf PosInf 0 =
          (Some m, sc, al', n)"
    and m: "m \<in> set (legal_moves R p)" and sc: "NegInf < sc"
    using ab_root_loop_selects [OF assms(1,4), of "nat (depth self - 1)" p NegInf PosInf 0]
    by blast
  have loop: "root_loop frames R (legal_moves R p) None NegInf NegInf PosInf (new_board p) ?self1 =
          Inr (Some m, sc, al', new_board p, ?self1\<lparr>nodes_searched := n\<rparr>)"
    by (simp add: root_loop_ab [OF p1 p2] new_board_def r)
  have "\<forall>rnd. get_best_move frames R rnd self fen =
          Inr ((uci R m, to_pawns sc, depth self, n, [uci R m]), ?self1\<lparr>nodes_searched := n\<rparr>)"
    by (simp add: get_best_move_ab [OF assms(2-6)] root_activations_def r Let_def)
  with loop m sc show ?thesis by auto
qed

theorem fallback_unreachable_witness:
  "\<exists>m sc al' self'.
     root_loop 1 (kp_rules unrecorded) (legal_moves (kp_rules unrecorded) (kp_position unrecorded))
       None NegInf NegInf PosInf (new_board (kp_position unrecorded))
       (init_engine 1\<lparr>nodes_searched := 0, pv := []\<rparr>) =
       Inr (Some m, sc, al', new_board (kp_position unrecorded), self') \<and>
     m \<in> set (legal_moves (kp_rules unrecorded) (kp_position unrecorded)) \<and> NegInf < sc \<and>
     (\<forall>rnd. get_best_move 1 (kp_rules unrecorded) rnd (init_engine 1) kp_fen =
        Inr ((uci (kp_rules unrecorded) m, to_pawns sc, depth (init_engine 1),
              nodes_searched self', [uci (kp_rules unrecorded) m]), self'))"
proof -
  have h5: "1 \<le> depth (init_engine 1)" and h6: "nat (depth (init_engine 1) - 1) < (1::nat)"
    by (simp_all add: init_engine_def)
  show ?thesis
    by (rule fallback_unreachable [OF kp_consistent kp_from_fen kp_not_over kp_has_moves h5 h6])
qed

section \<open>Determinism\<close>

text \<open>
  Claim C10. On a position that is not finished and has a legal move, with a configured
  depth of at least one and a consistent rules engine, \<open>get_best_move\<close> returns the
  same tuple (move, score, depth, nodes, principal variation) whatever the random
  generator would draw and whatever the node counter and the principal variation of
  the engine held before the call; the engine it leaves behind is the same too.
\<close>

theorem get_best_move_deterministic:
  assumes "consistent R" and "from_fen R fen = Some p" and "\<not> is_game_over R p"
    and "legal_moves R p \<noteq> []" and "1 \<le> depth self1" and "depth self2 = depth self1"
    and "nat (depth self1 - 1) < frames1" and "nat (depth self1 - 1) < frames2"
  shows "get_best_move frames1 R rnd1 self1 fen = get_best_move frames2 R rnd2 self2 fen"
proof -
  have d2: "1 \<le> depth self2" and f2: "nat (depth self2 - 1) < frames2"
    using assms by simp_all
  obtain m sc al' n where
    r: "ab_root_loop R (nat (depth self1 - 1)) p (legal_moves R p) None NegInf NegInf PosInf 0 =
          (Some m, sc, al', n)"
    using ab_root_loop_selects [OF assms(1,4), of "nat (depth self1 - 1)" p NegInf PosInf 0]
    by blast
  have e: "self1\<lparr>nodes_searched := n, pv := []\<rparr> = self2\<lparr>nodes_searched := n, pv := []\<rparr>"
    using assms(6) by (cases self1; cases self2) simp
  have "get_best_move frames1 R rnd1 self1 fen =
          Inr ((uci R m, to_pawns sc, depth self1, n, [uci R m]), self1\<lparr>nodes_searched := n, pv := []\<rparr>)"
    by (simp add: get_best_move_ab [OF assms(2-5,7)] root_activations_def r Let_def)
  moreover have "get_best_move frames2 R rnd2 self2 fen =
          Inr ((uci R m, to_pawns sc, depth self1, n, [uci R m]), self2\<lparr>nodes_searched := n, pv := []\<rparr>)"
    by (simp add: get_best_move_ab [OF assms(2-4) d2 f2] root_activations_def assms(6) r Let_def)
  ultimately show ?thesis using e by simp
qed

theorem get_best_move_deterministic_witness:
  "get_best_move 1 (kp_rules unrecorded) 0 (init_engine 1) kp_fen =
   get_best_move 3 (kp_rules unrecorded) 7 \<lparr>depth = 1, nodes_searched = 42, pv = [''e2e4'']\<rparr> kp_fen"
proof -
  have h5: "1 \<le> depth (init_engine 1)"
    by (simp add: init_engine_def)
  have h6: "depth \<lparr>depth = 1, nodes_searched = 42, pv = [''e2e4'']\<rparr> = depth (init_engine 1)"
    by (simp add: init_engine_def)
  have h7: "nat (depth (init_engine 1) - 1) < (1::nat)"
    and h8: "nat (depth (init_engine 1) - 1) < (3::nat)"
    by (simp_all add: init_engine_def)
  show ?thesis
    by (rule get_best_move_deterministic
          [OF kp_consistent kp_from_fen kp_not_over kp_has_moves h5 h6 h7 h8])
qed

end
